theory Spec2Isabelle
  imports Main "HOL-Library.FSet" "HOL-Library.Multiset"
begin

section \<open>The vacuum-world planner (planner.py)\<close>

text \<open>
  The planner searches a grid for a sequence of actions (\<open>N\<close>, \<open>S\<close>, \<open>E\<close>, \<open>W\<close>, \<open>V\<close>)
  that vacuums every dirty cell.  Two strategies exist: \<open>ucs\<close>, which keeps its frontier in
  a binary heap (Python's \<open>heapq\<close>), and \<open>dfs\<close>, which keeps it in a stack.  Both print the
  actions and two counters and return, or print a failure message and leave with
  \<open>sys.exit(1)\<close>.  The printed report is modelled as a value of type \<open>outcome\<close>.
\<close>

subsection \<open>RobotState\<close>

text \<open>
  \<open>class RobotState\<close>: a position, a \<open>frozenset\<close> of dirty cells and the list of actions
  taken so far.  A \<open>frozenset\<close> is a finite set, hence \<open>fset\<close>.
\<close>

record RobotState =
  position :: "int \<times> int"
  dirty_cells :: "(int \<times> int) fset"
  path :: "string list"

text \<open>\<open>RobotState.__lt__\<close>: only the number of dirty cells is compared.\<close>

definition lt :: "RobotState \<Rightarrow> RobotState \<Rightarrow> bool" where
  "lt self other = (fcard (dirty_cells self) < fcard (dirty_cells other))"

subsection \<open>The heap of \<open>heapq\<close>\<close>

text \<open>
  The frontier of \<open>ucs\<close> holds tuples \<open>(len(path), state)\<close>.  Python compares tuples
  lexicographically: the first components decide unless they are equal, and then
  \<open>RobotState.__lt__\<close> decides.
\<close>

type_synonym entry = "nat \<times> RobotState"

definition entry_lt :: "entry \<Rightarrow> entry \<Rightarrow> bool" where
  "entry_lt a b = (fst a < fst b \<or> (fst a = fst b \<and> lt (snd a) (snd b)))"

text \<open>
  \<open>heapq._siftdown(heap, startpos, pos)\<close>: the item at \<open>pos\<close> moves towards the root
  while it is smaller than its parent.  The item is read once (\<open>newitem = heap[pos]\<close>) and
  carried along.
\<close>

function siftdown_loop :: "entry list \<Rightarrow> nat \<Rightarrow> nat \<Rightarrow> entry \<Rightarrow> entry list" where
  "siftdown_loop heap startpos pos newitem =
     (if pos > startpos then
        let parentpos = (pos - 1) div 2;
            parent = heap ! parentpos
        in if entry_lt newitem parent
           then siftdown_loop (heap[pos := parent]) startpos parentpos newitem
           else heap[pos := newitem]
      else heap[pos := newitem])"
  by pat_completeness auto
termination
  by (relation "measure (\<lambda>(heap, startpos, pos, newitem). pos)") auto

declare siftdown_loop.simps [simp del]

definition siftdown :: "entry list \<Rightarrow> nat \<Rightarrow> nat \<Rightarrow> entry list" where
  "siftdown heap startpos pos = siftdown_loop heap startpos pos (heap ! pos)"

text \<open>
  \<open>heapq._siftup(heap, pos)\<close>: the smaller child is moved up until a leaf is reached;
  the item that was at \<open>pos\<close> is put there and sifted down again.
\<close>

function siftup_loop :: "entry list \<Rightarrow> nat \<Rightarrow> entry list \<times> nat" where
  "siftup_loop heap pos =
     (let endpos = length heap;
          childpos = 2 * pos + 1
      in if childpos < endpos then
           let rightpos = childpos + 1;
               childpos = (if rightpos < endpos \<and> \<not> entry_lt (heap ! childpos) (heap ! rightpos)
                           then rightpos else childpos)
           in siftup_loop (heap[pos := heap ! childpos]) childpos
         else (heap, pos))"
  by pat_completeness auto
termination
  by (relation "measure (\<lambda>(heap, pos). length heap - pos)") auto

declare siftup_loop.simps [simp del]

definition siftup :: "entry list \<Rightarrow> nat \<Rightarrow> entry list" where
  "siftup heap pos =
     (let newitem = heap ! pos;
          (heap', pos') = siftup_loop heap pos
      in siftdown (heap'[pos' := newitem]) pos pos')"

text \<open>\<open>heapq.heappush(heap, item)\<close>.\<close>

definition heappush :: "entry list \<Rightarrow> entry \<Rightarrow> entry list" where
  "heappush heap item = siftdown (heap @ [item]) 0 (length heap)"

text \<open>
  \<open>heapq.heappop(heap)\<close>, which the planner calls on a non-empty heap only (the loop
  condition is \<open>while pq\<close>): the result is the popped item and the heap left.
\<close>

definition heappop :: "entry list \<Rightarrow> entry \<times> entry list" where
  "heappop heap =
     (let lastelt = last heap;
          heap' = butlast heap
      in if heap' \<noteq> [] then (heap' ! 0, siftup (heap'[0 := lastelt]) 0)
         else (lastelt, heap'))"

subsection \<open>The world and the outcome of a search\<close>

datatype error = IndexError

text \<open>
  \<open>world[nr][nc]\<close> for indices that are known not to be negative: Python raises
  \<open>IndexError\<close> when the grid has no such row or the row no such column.
\<close>

definition world_cell :: "string list \<Rightarrow> int \<Rightarrow> int \<Rightarrow> error + char" where
  "world_cell world nr nc =
     (if nat nr < length world \<and> nat nc < length (world ! nat nr)
      then Inr (world ! nat nr ! nat nc) else Inl IndexError)"

text \<open>
  What a search prints: the actions with the numbers of generated and expanded nodes, or
  the failure message with the two numbers.
\<close>

datatype outcome =
    Solved "string list" nat nat
  | Exhausted nat nat

text \<open>The exit status: a search that returns lets \<open>main\<close> end normally; the other calls \<open>sys.exit(1)\<close>.\<close>

fun exit_status :: "outcome \<Rightarrow> int" where
  "exit_status (Solved acts gen exp) = 0"
| "exit_status (Exhausted gen exp) = 1"

type_synonym key = "(int \<times> int) \<times> (int \<times> int) fset"

text \<open>The dictionary \<open>directions\<close>; Python iterates over it in insertion order.\<close>

definition directions :: "(string \<times> int \<times> int) list" where
  "directions = [(''N'', (-1, 0)), (''S'', (1, 0)), (''E'', (0, 1)), (''W'', (0, -1))]"

subsection \<open>Uniform-cost search\<close>

text \<open>
  The body of the \<open>for\<close> loop of \<open>ucs\<close> for one direction.  It changes \<open>pq\<close>, \<open>explored\<close>
  and \<open>gen\<close>; \<open>r\<close>, \<open>c\<close> and \<open>cur\<close> are fixed during the loop.
\<close>

fun ucs_visit ::
  "int \<Rightarrow> int \<Rightarrow> string list \<Rightarrow> int \<Rightarrow> int \<Rightarrow> RobotState \<Rightarrow>
   entry list \<times> key set \<times> nat \<Rightarrow> string \<times> int \<times> int \<Rightarrow> error + entry list \<times> key set \<times> nat" where
  "ucs_visit cols rows world r c cur (pq, explored, gen) (action, (dr, dc)) =
     (let nr = r + dr; nc = c + dc in
      if 0 \<le> nr \<and> nr < rows \<and> 0 \<le> nc \<and> nc < cols then
        (case world_cell world nr nc of
           Inl e \<Rightarrow> Inl e
         | Inr ch \<Rightarrow>
             if ch \<noteq> CHR ''#'' then
               let new_state = \<lparr>position = (nr, nc), dirty_cells = dirty_cells cur,
                                path = path cur @ [action]\<rparr>
               in if (position new_state, dirty_cells new_state) \<notin> explored
                  then Inr (heappush pq (length (path new_state), new_state),
                            insert (position new_state, dirty_cells new_state) explored,
                            gen + 1)
                  else Inr (pq, explored, gen)
             else Inr (pq, explored, gen))
      else Inr (pq, explored, gen))"

text \<open>The \<open>for\<close> loop: an exception ends it.\<close>

fun ucs_for ::
  "int \<Rightarrow> int \<Rightarrow> string list \<Rightarrow> int \<Rightarrow> int \<Rightarrow> RobotState \<Rightarrow>
   (string \<times> int \<times> int) list \<Rightarrow> entry list \<times> key set \<times> nat \<Rightarrow> error + entry list \<times> key set \<times> nat" where
  "ucs_for cols rows world r c cur [] st = Inr st"
| "ucs_for cols rows world r c cur (d # ds) st =
     (case ucs_visit cols rows world r c cur st d of
        Inl e \<Rightarrow> Inl e
      | Inr st' \<Rightarrow> ucs_for cols rows world r c cur ds st')"

text \<open>
  What one round of the \<open>while\<close> loop does with the node it popped: vacuum, goal test,
  successors.  The result is either the end of the search (\<open>Inl\<close>: an exception or a
  report) or the variables of the next round.
\<close>

definition ucs_expand ::
  "int \<Rightarrow> int \<Rightarrow> string list \<Rightarrow> RobotState \<Rightarrow> entry list \<Rightarrow> key set \<Rightarrow> nat \<Rightarrow> nat \<Rightarrow>
   (error + outcome) + entry list \<times> key set \<times> nat \<times> nat" where
  "ucs_expand cols rows world cur0 pq explored exp gen =
     (let (r, c) = position cur0;
          cur = (if position cur0 |\<in>| dirty_cells cur0
                 then \<lparr>position = position cur0,
                       dirty_cells = dirty_cells cur0 |-| {|position cur0|},
                       path = path cur0 @ [''V'']\<rparr>
                 else cur0)
      in if dirty_cells cur = {||} then Inl (Inr (Solved (path cur) gen exp))
         else (case ucs_for cols rows world r c cur directions (pq, explored, gen) of
                 Inl e \<Rightarrow> Inl (Inl e)
               | Inr (pq', explored', gen') \<Rightarrow> Inr (pq', explored', exp, gen')))"

definition ucs_round ::
  "int \<Rightarrow> int \<Rightarrow> string list \<Rightarrow> entry list \<Rightarrow> key set \<Rightarrow> nat \<Rightarrow> nat \<Rightarrow>
   (error + outcome) + entry list \<times> key set \<times> nat \<times> nat" where
  "ucs_round cols rows world pq explored exp gen =
     (let exp' = exp + 1;
          (item, pq') = heappop pq
      in ucs_expand cols rows world (snd item) pq' explored exp' gen)"

text \<open>The \<open>while pq\<close> loop.  A search that never ends has the value \<open>None\<close>.\<close>

partial_function (option) ucs_loop ::
  "int \<Rightarrow> int \<Rightarrow> string list \<Rightarrow> entry list \<Rightarrow> key set \<Rightarrow> nat \<Rightarrow> nat \<Rightarrow> (error + outcome) option" where
  "ucs_loop cols rows world pq explored exp gen =
     (if pq \<noteq> [] then
        (case ucs_round cols rows world pq explored exp gen of
           Inl res \<Rightarrow> Some res
         | Inr (pq', explored', exp', gen') \<Rightarrow> ucs_loop cols rows world pq' explored' exp' gen')
      else Some (Inr (Exhausted gen exp)))"

declare ucs_loop.simps [code]

definition ucs :: "int \<Rightarrow> int \<Rightarrow> string list \<Rightarrow> RobotState \<Rightarrow> (error + outcome) option" where
  "ucs cols rows world start = ucs_loop cols rows world (heappush [] (0, start)) {} 0 0"

subsection \<open>Depth-first search\<close>

fun dfs_visit ::
  "int \<Rightarrow> int \<Rightarrow> string list \<Rightarrow> int \<Rightarrow> int \<Rightarrow> RobotState \<Rightarrow>
   RobotState list \<times> key set \<times> nat \<Rightarrow> string \<times> int \<times> int \<Rightarrow> error + RobotState list \<times> key set \<times> nat" where
  "dfs_visit cols rows world r c cur (stack, explored, gen) (action, (dr, dc)) =
     (let nr = r + dr; nc = c + dc in
      if 0 \<le> nr \<and> nr < rows \<and> 0 \<le> nc \<and> nc < cols then
        (case world_cell world nr nc of
           Inl e \<Rightarrow> Inl e
         | Inr ch \<Rightarrow>
             if ch \<noteq> CHR ''#'' then
               let new_state = \<lparr>position = (nr, nc), dirty_cells = dirty_cells cur,
                                path = path cur @ [action]\<rparr>
               in if (position new_state, dirty_cells new_state) \<notin> explored
                  then Inr (stack @ [new_state],
                            insert (position new_state, dirty_cells new_state) explored,
                            gen + 1)
                  else Inr (stack, explored, gen)
             else Inr (stack, explored, gen))
      else Inr (stack, explored, gen))"

fun dfs_for ::
  "int \<Rightarrow> int \<Rightarrow> string list \<Rightarrow> int \<Rightarrow> int \<Rightarrow> RobotState \<Rightarrow>
   (string \<times> int \<times> int) list \<Rightarrow> RobotState list \<times> key set \<times> nat \<Rightarrow> error + RobotState list \<times> key set \<times> nat" where
  "dfs_for cols rows world r c cur [] st = Inr st"
| "dfs_for cols rows world r c cur (d # ds) st =
     (case dfs_visit cols rows world r c cur st d of
        Inl e \<Rightarrow> Inl e
      | Inr st' \<Rightarrow> dfs_for cols rows world r c cur ds st')"

definition dfs_expand ::
  "int \<Rightarrow> int \<Rightarrow> string list \<Rightarrow> RobotState \<Rightarrow> RobotState list \<Rightarrow> key set \<Rightarrow> nat \<Rightarrow> nat \<Rightarrow>
   (error + outcome) + RobotState list \<times> key set \<times> nat \<times> nat" where
  "dfs_expand cols rows world cur0 stack explored exp gen =
     (let (r, c) = position cur0;
          cur = (if position cur0 |\<in>| dirty_cells cur0
                 then \<lparr>position = position cur0,
                       dirty_cells = dirty_cells cur0 |-| {|position cur0|},
                       path = path cur0 @ [''V'']\<rparr>
                 else cur0)
      in if dirty_cells cur = {||} then Inl (Inr (Solved (path cur) gen exp))
         else (case dfs_for cols rows world r c cur directions (stack, explored, gen) of
                 Inl e \<Rightarrow> Inl (Inl e)
               | Inr (stack', explored', gen') \<Rightarrow> Inr (stack', explored', exp, gen')))"

text \<open>\<open>stack.pop()\<close> takes the last element.\<close>

definition dfs_round ::
  "int \<Rightarrow> int \<Rightarrow> string list \<Rightarrow> RobotState list \<Rightarrow> key set \<Rightarrow> nat \<Rightarrow> nat \<Rightarrow>
   (error + outcome) + RobotState list \<times> key set \<times> nat \<times> nat" where
  "dfs_round cols rows world stack explored exp gen =
     (let exp' = exp + 1;
          cur = last stack;
          stack' = butlast stack
      in dfs_expand cols rows world cur stack' explored exp' gen)"

partial_function (option) dfs_loop ::
  "int \<Rightarrow> int \<Rightarrow> string list \<Rightarrow> RobotState list \<Rightarrow> key set \<Rightarrow> nat \<Rightarrow> nat \<Rightarrow> (error + outcome) option" where
  "dfs_loop cols rows world stack explored exp gen =
     (if stack \<noteq> [] then
        (case dfs_round cols rows world stack explored exp gen of
           Inl res \<Rightarrow> Some res
         | Inr (stack', explored', exp', gen') \<Rightarrow> dfs_loop cols rows world stack' explored' exp' gen')
      else Some (Inr (Exhausted gen exp)))"

declare dfs_loop.simps [code]

definition dfs :: "int \<Rightarrow> int \<Rightarrow> string list \<Rightarrow> RobotState \<Rightarrow> (error + outcome) option" where
  "dfs cols rows world start = dfs_loop cols rows world [start] {} 0 0"

subsection \<open>Reading the world file\<close>

text \<open>
  \<open>read_input\<close> after the file has been split into lines and the first two lines have
  been converted with \<open>int\<close>: \<open>world_lines\<close> is \<open>lines[2:]\<close>.  The inner loop of
  \<open>read_input\<close> scans one row: the start cell \<open>@\<close> is recorded and replaced by an empty
  cell, a dirty cell \<open>*\<close> is recorded and kept.
\<close>

fun scan_row ::
  "int \<Rightarrow> int \<Rightarrow> string \<Rightarrow> (int \<times> int) option \<Rightarrow> (int \<times> int) fset \<Rightarrow>
   string \<times> (int \<times> int) option \<times> (int \<times> int) fset" where
  "scan_row rind cind [] robot_pos dirty = ([], robot_pos, dirty)"
| "scan_row rind cind (cell # row) robot_pos dirty =
     (if cell = CHR ''@'' then
        (let (row', robot_pos', dirty') = scan_row rind (cind + 1) row (Some (rind, cind)) dirty
         in (CHR ''_'' # row', robot_pos', dirty'))
      else if cell = CHR ''*'' then
        (let (row', robot_pos', dirty') =
               scan_row rind (cind + 1) row robot_pos (finsert (rind, cind) dirty)
         in (cell # row', robot_pos', dirty'))
      else
        (let (row', robot_pos', dirty') = scan_row rind (cind + 1) row robot_pos dirty
         in (cell # row', robot_pos', dirty')))"

text \<open>The outer loop, \<open>for rind in range(rows)\<close>; \<open>world_lines[rind]\<close> raises when the file is too short.\<close>

fun scan_rows ::
  "nat \<Rightarrow> int \<Rightarrow> string list \<Rightarrow> string list \<Rightarrow> (int \<times> int) option \<Rightarrow> (int \<times> int) fset \<Rightarrow>
   error + string list \<times> (int \<times> int) option \<times> (int \<times> int) fset" where
  "scan_rows 0 rind world_lines grid robot_pos dirty = Inr (grid, robot_pos, dirty)"
| "scan_rows (Suc n) rind world_lines grid robot_pos dirty =
     (if nat rind < length world_lines then
        (let (row, robot_pos', dirty') =
               scan_row rind 0 (world_lines ! nat rind) robot_pos dirty
         in scan_rows n (rind + 1) world_lines (grid @ [row]) robot_pos' dirty')
      else Inl IndexError)"

definition read_input ::
  "int \<Rightarrow> int \<Rightarrow> string list \<Rightarrow>
   error + int \<times> int \<times> string list \<times> (int \<times> int) option \<times> (int \<times> int) fset" where
  "read_input cols rows world_lines =
     (case scan_rows (nat rows) 0 world_lines [] None {||} of
        Inl e \<Rightarrow> Inl e
      | Inr (grid, robot_pos, dirty) \<Rightarrow> Inr (cols, rows, grid, robot_pos, dirty))"

section \<open>Notions of the specification and of the proofs\<close>

subsection \<open>The heap invariant\<close>

definition entry_le :: "entry \<Rightarrow> entry \<Rightarrow> bool" where
  "entry_le a b = (\<not> entry_lt b a)"

definition heap_ok :: "entry list \<Rightarrow> bool" where
  "heap_ok h = (\<forall>i. 0 < i \<and> i < length h \<longrightarrow> entry_le (h ! ((i - 1) div 2)) (h ! i))"

definition hole_ok :: "entry list \<Rightarrow> nat \<Rightarrow> bool" where
  "hole_ok h pos =
     ((\<forall>i. 0 < i \<and> i < length h \<and> i \<noteq> pos \<and> (i - 1) div 2 \<noteq> pos \<longrightarrow>
           entry_le (h ! ((i - 1) div 2)) (h ! i)) \<and>
      (0 < pos \<longrightarrow> (\<forall>c. 0 < c \<and> c < length h \<and> (c - 1) div 2 = pos \<longrightarrow>
           entry_le (h ! ((pos - 1) div 2)) (h ! c))))"

text \<open>The heaps that the operations of \<open>heapq\<close> build from the empty list.\<close>

inductive frontier :: "entry list \<Rightarrow> bool" where
  empty: "frontier []"
| push: "frontier pq \<Longrightarrow> frontier (heappush pq item)"
| pop: "frontier pq \<Longrightarrow> pq \<noteq> [] \<Longrightarrow> frontier (snd (heappop pq))"

subsection \<open>The nodes a search pops\<close>

text \<open>
  The keys (position and dirty cells) of the nodes popped in the first \<open>n\<close> rounds of the
  \<open>while\<close> loop, in the order of the pops.  The rounds are those of \<open>ucs_loop\<close> and
  \<open>dfs_loop\<close>.
\<close>

fun ucs_popped ::
  "nat \<Rightarrow> int \<Rightarrow> int \<Rightarrow> string list \<Rightarrow> entry list \<Rightarrow> key set \<Rightarrow> nat \<Rightarrow> nat \<Rightarrow> key list" where
  "ucs_popped 0 cols rows world pq explored exp gen = []"
| "ucs_popped (Suc n) cols rows world pq explored exp gen =
     (if pq \<noteq> [] then
        (let cur = snd (fst (heappop pq)) in
         (position cur, dirty_cells cur) #
         (case ucs_round cols rows world pq explored exp gen of
            Inl res \<Rightarrow> []
          | Inr (pq', explored', exp', gen') \<Rightarrow> ucs_popped n cols rows world pq' explored' exp' gen'))
      else [])"

fun dfs_popped ::
  "nat \<Rightarrow> int \<Rightarrow> int \<Rightarrow> string list \<Rightarrow> RobotState list \<Rightarrow> key set \<Rightarrow> nat \<Rightarrow> nat \<Rightarrow> key list" where
  "dfs_popped 0 cols rows world stack explored exp gen = []"
| "dfs_popped (Suc n) cols rows world stack explored exp gen =
     (if stack \<noteq> [] then
        (let cur = last stack in
         (position cur, dirty_cells cur) #
         (case dfs_round cols rows world stack explored exp gen of
            Inl res \<Rightarrow> []
          | Inr (stack', explored', exp', gen') \<Rightarrow> dfs_popped n cols rows world stack' explored' exp' gen'))
      else [])"

subsection \<open>The world model\<close>

text \<open>
  A position is in bounds when its row and column are inside the grid, and passable when
  the grid has a cell there that is not a wall.  A robot may move to a free position.
\<close>

definition in_bounds :: "int \<Rightarrow> int \<Rightarrow> int \<times> int \<Rightarrow> bool" where
  "in_bounds cols rows p = (0 \<le> fst p \<and> fst p < rows \<and> 0 \<le> snd p \<and> snd p < cols)"

definition passable :: "string list \<Rightarrow> int \<times> int \<Rightarrow> bool" where
  "passable world p =
     (case world_cell world (fst p) (snd p) of Inl e \<Rightarrow> False | Inr ch \<Rightarrow> ch \<noteq> CHR ''#'')"

definition free :: "int \<Rightarrow> int \<Rightarrow> string list \<Rightarrow> int \<times> int \<Rightarrow> bool" where
  "free cols rows world p = (in_bounds cols rows p \<and> passable world p)"

text \<open>The positions at which the bounds test passes and \<open>world[nr][nc]\<close> raises.\<close>

definition raises :: "int \<Rightarrow> int \<Rightarrow> string list \<Rightarrow> int \<times> int \<Rightarrow> bool" where
  "raises cols rows world p =
     (in_bounds cols rows p \<and> world_cell world (fst p) (snd p) = Inl IndexError)"

text \<open>The grid of the world model: \<open>rows\<close> rows of \<open>cols\<close> cells each.\<close>

definition wf_world :: "int \<Rightarrow> int \<Rightarrow> string list \<Rightarrow> bool" where
  "wf_world cols rows world =
     (length world = nat rows \<and> (\<forall>row \<in> set world. length row = nat cols))"

subsection \<open>Search states\<close>

definition target :: "int \<times> int \<Rightarrow> int \<times> int \<Rightarrow> int \<times> int" where
  "target p d = (fst p + fst d, snd p + snd d)"

text \<open>The key of a state is what \<open>explored\<close> stores: position and dirty cells.\<close>

definition key_of :: "RobotState \<Rightarrow> key" where
  "key_of s = (position s, dirty_cells s)"

text \<open>The vacuum transition: the state with which a popped node is replaced.\<close>

definition vacuumed :: "RobotState \<Rightarrow> RobotState" where
  "vacuumed s =
     (if position s |\<in>| dirty_cells s
      then \<lparr>position = position s, dirty_cells = dirty_cells s |-| {|position s|},
            path = path s @ [''V'']\<rparr>
      else s)"

text \<open>The states the \<open>for\<close> loop creates for a list of directions.\<close>

definition succ_list ::
  "int \<Rightarrow> int \<Rightarrow> string list \<Rightarrow> RobotState \<Rightarrow> (string \<times> int \<times> int) list \<Rightarrow> RobotState list" where
  "succ_list cols rows world cur ds =
     map (\<lambda>(action, d). \<lparr>position = target (position cur) d, dirty_cells = dirty_cells cur,
                          path = path cur @ [action]\<rparr>)
       (filter (\<lambda>(action, d). free cols rows world (target (position cur) d)) ds)"

text \<open>
  The successors in the words of the specification: North, South, East, West in this
  order, each only if the target is in bounds and passable, with the target position, the
  dirty cells of the parent and the path of the parent extended by the label.
\<close>

definition spec_successors :: "int \<Rightarrow> int \<Rightarrow> string list \<Rightarrow> RobotState \<Rightarrow> RobotState list" where
  "spec_successors cols rows world cur =
     (let (r, c) = position cur in
      map (\<lambda>(action, q). \<lparr>position = q, dirty_cells = dirty_cells cur, path = path cur @ [action]\<rparr>)
        (filter (\<lambda>(action, q). in_bounds cols rows q \<and> passable world q)
           [(''N'', (r - 1, c)), (''S'', (r + 1, c)), (''E'', (r, c + 1)), (''W'', (r, c - 1))]))"

text \<open>The heap entry under which \<open>ucs\<close> pushes a state.\<close>

definition entry_of :: "RobotState \<Rightarrow> entry" where
  "entry_of s = (length (path s), s)"

subsection \<open>Replaying an action sequence\<close>

text \<open>
  Replaying actions against the world model from a position and a set of dirty cells:
  \<open>V\<close> removes the current position from the dirty cells; \<open>N\<close>, \<open>S\<close>, \<open>E\<close>, \<open>W\<close>
  move by one cell, which is allowed only onto a free cell (in bounds and not a wall).  The
  replay fails (\<open>None\<close>) at a move that is not allowed and at a label that is no action.
\<close>

fun replay :: "int \<Rightarrow> int \<Rightarrow> string list \<Rightarrow> key \<Rightarrow> string list \<Rightarrow> key option" where
  "replay cols rows world k [] = Some k"
| "replay cols rows world k (a # as) =
     (if a = ''V'' then replay cols rows world (fst k, snd k |-| {|fst k|}) as
      else (case map_of directions a of
              None \<Rightarrow> None
            | Some d \<Rightarrow>
                if free cols rows world (target (fst k) d)
                then replay cols rows world (target (fst k) d, snd k) as
                else None))"

text \<open>An action sequence cleans every dirty cell when its replay succeeds and leaves none.\<close>

definition cleans :: "int \<Rightarrow> int \<Rightarrow> string list \<Rightarrow> RobotState \<Rightarrow> string list \<Rightarrow> bool" where
  "cleans cols rows world start acts =
     (case replay cols rows world (position start, dirty_cells start) acts of
        None \<Rightarrow> False
      | Some k \<Rightarrow> snd k = {||})"

subsection \<open>The search graph\<close>

text \<open>
  The states a search can create: the start state, and every successor of the vacuumed
  form of a created state that is not a goal.
\<close>

inductive reach :: "int \<Rightarrow> int \<Rightarrow> string list \<Rightarrow> RobotState \<Rightarrow> RobotState \<Rightarrow> bool"
  for cols rows world start where
  reach_start: "reach cols rows world start start"
| reach_step: "reach cols rows world start n \<Longrightarrow> dirty_cells (vacuumed n) \<noteq> {||} \<Longrightarrow>
     s \<in> set (spec_successors cols rows world (vacuumed n)) \<Longrightarrow> reach cols rows world start s"

text \<open>The free neighbours of a position.\<close>

definition nbrs :: "int \<Rightarrow> int \<Rightarrow> string list \<Rightarrow> int \<times> int \<Rightarrow> (int \<times> int) list" where
  "nbrs cols rows world p =
     filter (free cols rows world)
       [(fst p - 1, snd p), (fst p + 1, snd p), (fst p, snd p + 1), (fst p, snd p - 1)]"

text \<open>
  A key is closed when it is not a goal and the keys of all its successors are in
  \<open>explored\<close>: this is what expanding a node achieves.
\<close>

definition closed :: "int \<Rightarrow> int \<Rightarrow> string list \<Rightarrow> key set \<Rightarrow> key \<Rightarrow> bool" where
  "closed cols rows world E k =
     (snd k |-| {|fst k|} \<noteq> {||} \<and>
      (\<forall>q \<in> set (nbrs cols rows world (fst k)). (q, snd k |-| {|fst k|}) \<in> E))"

text \<open>All keys with a position in the grid and dirty cells among those of the start.\<close>

definition universe :: "int \<Rightarrow> int \<Rightarrow> (int \<times> int) fset \<Rightarrow> key set" where
  "universe cols rows D = ({0..<rows} \<times> {0..<cols}) \<times> {d. d |\<subseteq>| D}"

subsection \<open>Invariants of the search loops\<close>

text \<open>
  The invariant both loops keep, stated for the multiset of the states in the frontier:
  every state is one of the search graph, \<open>explored\<close> holds keys of the universe that
  the graph reaches, \<open>gen\<close> counts them, \<open>exp\<close> counts the pops, and every key that was
  ever in the frontier is still there or closed.
\<close>

definition base_inv ::
  "int \<Rightarrow> int \<Rightarrow> string list \<Rightarrow> RobotState \<Rightarrow> RobotState multiset \<Rightarrow> key set \<Rightarrow> nat \<Rightarrow> nat \<Rightarrow> bool" where
  "base_inv cols rows world start F E exp gen =
     ((\<forall>n \<in># F. reach cols rows world start n) \<and>
      (\<forall>k \<in> E. \<exists>n. reach cols rows world start n \<and> key_of n = k) \<and>
      E \<subseteq> universe cols rows (dirty_cells start) \<and>
      card E = gen \<and> exp + size F = gen + 1 \<and>
      (\<forall>k \<in> insert (key_of start) E. k \<in> key_of ` set_mset F \<or> closed cols rows world E k))"

text \<open>The measure that decreases in every round.\<close>

definition search_measure :: "int \<Rightarrow> int \<Rightarrow> RobotState \<Rightarrow> nat \<Rightarrow> key set \<Rightarrow> nat" where
  "search_measure cols rows start sz E = sz + card (universe cols rows (dirty_cells start) - E)"

text \<open>
  What holds of the result of a search: an exception needs a cell lookup that raises; a
  solution is the path of a goal of the search graph; after exhaustion the graph has no
  goal; the counters are bounded by the size of the universe.
\<close>

definition search_post :: "int \<Rightarrow> int \<Rightarrow> string list \<Rightarrow> RobotState \<Rightarrow> error + outcome \<Rightarrow> bool" where
  "search_post cols rows world start res =
     (case res of
        Inl e \<Rightarrow> (\<exists>p. raises cols rows world p)
      | Inr (Solved acts gen exp) \<Rightarrow>
          (\<exists>n. reach cols rows world start n \<and> dirty_cells (vacuumed n) = {||} \<and>
               acts = path (vacuumed n)) \<and>
          gen \<le> card (universe cols rows (dirty_cells start)) \<and> exp \<le> gen + 1
      | Inr (Exhausted gen exp) \<Rightarrow>
          (\<forall>n. reach cols rows world start n \<longrightarrow> dirty_cells (vacuumed n) \<noteq> {||}) \<and>
          gen \<le> card (universe cols rows (dirty_cells start)) \<and> exp = gen + 1)"

text \<open>\<open>solves k n\<close>: the search graph leads from a state with key \<open>k\<close> to a goal in \<open>n\<close> actions.\<close>

inductive solves :: "int \<Rightarrow> int \<Rightarrow> string list \<Rightarrow> key \<Rightarrow> nat \<Rightarrow> bool"
  for cols rows world where
  solves_goal: "snd k |-| {|fst k|} = {||} \<Longrightarrow>
     solves cols rows world k (if fst k |\<in>| snd k then 1 else 0)"
| solves_step: "snd k |-| {|fst k|} \<noteq> {||} \<Longrightarrow> q \<in> set (nbrs cols rows world (fst k)) \<Longrightarrow>
     solves cols rows world (q, snd k |-| {|fst k|}) n \<Longrightarrow>
     solves cols rows world k (n + 1 + (if fst k |\<in>| snd k then 1 else 0))"

text \<open>The number of actions between popping a state and arriving at a successor.\<close>

definition leave :: "RobotState \<Rightarrow> nat" where
  "leave n = (if position n |\<in>| dirty_cells n then 2 else 1)"

text \<open>
  The invariant of \<open>ucs\<close> for shortest paths: priorities are path lengths, and every key
  that was ever in the frontier is closed or has an entry there whose path is a shortest
  one to this key.
\<close>

definition opt_inv :: "int \<Rightarrow> int \<Rightarrow> string list \<Rightarrow> RobotState \<Rightarrow> entry list \<Rightarrow> key set \<Rightarrow> bool" where
  "opt_inv cols rows world start pq E =
     ((\<forall>e \<in> set pq. fst e = length (path (snd e))) \<and>
      (\<forall>k \<in> insert (key_of start) E.
         (\<exists>e \<in> set pq. key_of (snd e) = k \<and>
            (\<forall>m. reach cols rows world start m \<and> key_of m = k \<longrightarrow> fst e \<le> length (path m))) \<or>
         closed cols rows world E k))"

text \<open>A solution is optimal when no goal of the search graph has a shorter path.\<close>

definition optimal :: "int \<Rightarrow> int \<Rightarrow> string list \<Rightarrow> RobotState \<Rightarrow> error + outcome \<Rightarrow> bool" where
  "optimal cols rows world start res =
     (case res of
        Inr (Solved acts gen exp) \<Rightarrow>
          (\<forall>m. reach cols rows world start m \<and> dirty_cells (vacuumed m) = {||} \<longrightarrow>
               length acts \<le> length (path (vacuumed m)))
      | _ \<Rightarrow> True)"

subsection \<open>Notions of the claims\<close>

text \<open>The cells an action sequence enters, one for each move.\<close>

fun walk :: "int \<times> int \<Rightarrow> string list \<Rightarrow> (int \<times> int) list" where
  "walk p [] = []"
| "walk p (a # as) =
     (case map_of directions a of
        None \<Rightarrow> walk p as
      | Some d \<Rightarrow> target p d # walk (target p d) as)"

text \<open>
  A world with a dirty cell, not the start, none of whose four neighbours is free; the
  start itself is a free cell, as the world model demands.
\<close>

definition enclosed :: "int \<Rightarrow> int \<Rightarrow> string list \<Rightarrow> RobotState \<Rightarrow> bool" where
  "enclosed cols rows world start =
     (free cols rows world (position start) \<and>
      (\<exists>d |\<in>| dirty_cells start. d \<noteq> position start \<and> nbrs cols rows world d = []))"

text \<open>The counters of a report are within a bound, and \<open>exp\<close> exceeds \<open>gen\<close> by one at most.\<close>

fun counts_within :: "nat \<Rightarrow> error + outcome \<Rightarrow> bool" where
  "counts_within b (Inl e) = True"
| "counts_within b (Inr (Solved acts gen exp)) = (gen \<le> b \<and> exp \<le> gen + 1)"
| "counts_within b (Inr (Exhausted gen exp)) = (gen \<le> b \<and> exp \<le> gen + 1)"

section \<open>The heap operations keep the heap invariant\<close>

lemma entry_le_refl: "entry_le a a"
  by (simp add: entry_le_def entry_lt_def lt_def)

lemma entry_le_trans: "entry_le a b \<Longrightarrow> entry_le b c \<Longrightarrow> entry_le a c"
  by (auto simp: entry_le_def entry_lt_def lt_def)

lemma entry_lt_le: "entry_lt a b \<Longrightarrow> entry_le a b"
  by (auto simp: entry_le_def entry_lt_def lt_def)

lemma entry_le_total: "\<not> entry_le a b \<Longrightarrow> entry_le b a"
  by (auto simp: entry_le_def entry_lt_def lt_def)

lemma length_siftdown_loop [simp]: "length (siftdown_loop h s pos x) = length h"
  by (induction h s pos x rule: siftdown_loop.induct)
     (subst siftdown_loop.simps, simp add: Let_def)

lemma mset_swap_upd:
  "pp < length h \<Longrightarrow> pos < length h \<Longrightarrow> pp \<noteq> pos \<Longrightarrow>
   mset (h[pos := h ! pp, pp := x]) = mset (h[pos := x])"
  by (simp add: mset_update nth_list_update)

lemma hole_ok_upd [simp]: "pos < length h \<Longrightarrow> hole_ok (h[pos := v]) pos = hole_ok h pos"
proof -
  have a: "\<And>i. i \<noteq> pos \<Longrightarrow> h[pos := v] ! i = h ! i" by simp
  have b: "\<And>c. 0 < c \<Longrightarrow> (c - 1) div 2 = pos \<Longrightarrow> c \<noteq> pos" by auto
  have c: "0 < pos \<Longrightarrow> (pos - 1) div 2 \<noteq> pos" by auto
  show ?thesis
    unfolding hole_ok_def using a b c by (metis length_list_update)
qed

lemma hole_okD1:
  "hole_ok h pos \<Longrightarrow> 0 < i \<Longrightarrow> i < length h \<Longrightarrow> i \<noteq> pos \<Longrightarrow> (i - 1) div 2 \<noteq> pos \<Longrightarrow>
   entry_le (h ! ((i - 1) div 2)) (h ! i)"
  by (simp add: hole_ok_def)

lemma hole_okD2:
  "hole_ok h pos \<Longrightarrow> 0 < pos \<Longrightarrow> 0 < c \<Longrightarrow> c < length h \<Longrightarrow> (c - 1) div 2 = pos \<Longrightarrow>
   entry_le (h ! ((pos - 1) div 2)) (h ! c)"
  by (simp add: hole_ok_def)

lemma siftdown_loop_heap:
  "pos < length h \<Longrightarrow> hole_ok h pos \<Longrightarrow>
   (\<forall>c. 0 < c \<and> c < length h \<and> (c - 1) div 2 = pos \<longrightarrow> entry_le x (h ! c)) \<Longrightarrow>
   heap_ok (siftdown_loop h 0 pos x)"
proof (induction h "0::nat" pos x rule: siftdown_loop.induct)
  case (1 heap pos newitem)
  let ?pp = "(pos - 1) div 2"
  note len0 = "1.prems"(1)
  note A = hole_okD1[OF "1.prems"(2)]
  note C = hole_okD2[OF "1.prems"(2)]
  show ?case
  proof (cases "0 < pos \<and> entry_lt newitem (heap ! ?pp)")
    case True
    then have pp: "?pp < pos" and pos0: "0 < pos" and lt: "entry_le newitem (heap ! ?pp)"
      by (auto intro: entry_lt_le)
    let ?h' = "heap[pos := heap ! ?pp]"
    have len: "?pp < length ?h'" using pp len0 by simp
    have nth_pos: "?h' ! pos = heap ! ?pp" using len0 by simp
    have nth_other: "\<And>i. i \<noteq> pos \<Longrightarrow> ?h' ! i = heap ! i" by simp
    have hole: "hole_ok ?h' ?pp"
      unfolding hole_ok_def
    proof (intro conjI allI impI)
      fix i assume i: "0 < i \<and> i < length ?h' \<and> i \<noteq> ?pp \<and> (i - 1) div 2 \<noteq> ?pp"
      then have ip: "i \<noteq> pos" by auto
      show "entry_le (?h' ! ((i - 1) div 2)) (?h' ! i)"
      proof (cases "(i - 1) div 2 = pos")
        case True
        have "entry_le (heap ! ?pp) (heap ! i)" using C[OF pos0 _ _ True] i by simp
        then show ?thesis using True ip nth_pos nth_other by simp
      next
        case False
        have "entry_le (heap ! ((i - 1) div 2)) (heap ! i)" using A[OF _ _ ip False] i by simp
        then show ?thesis using False ip nth_other by simp
      qed
    next
      fix c assume pp0: "0 < ?pp" and c: "0 < c \<and> c < length ?h' \<and> (c - 1) div 2 = ?pp"
      have ne: "(?pp - 1) div 2 \<noteq> pos" "?pp \<noteq> pos" using pp pp0 by auto
      have a: "entry_le (heap ! ((?pp - 1) div 2)) (heap ! ?pp)"
        using A[OF pp0 _ ne(2) ne(1)] pp len0 by simp
      show "entry_le (?h' ! ((?pp - 1) div 2)) (?h' ! c)"
      proof (cases "c = pos")
        case True
        then show ?thesis using a ne nth_pos nth_other by simp
      next
        case False
        have "(c - 1) div 2 \<noteq> pos" using c ne by simp
        then have "entry_le (heap ! ((c - 1) div 2)) (heap ! c)" using A[OF _ _ False] c by simp
        then have "entry_le (heap ! ?pp) (heap ! c)" using c by simp
        then have "entry_le (heap ! ((?pp - 1) div 2)) (heap ! c)" using a entry_le_trans by blast
        then show ?thesis using ne False nth_other by simp
      qed
    qed
    have kids: "\<forall>c. 0 < c \<and> c < length ?h' \<and> (c - 1) div 2 = ?pp \<longrightarrow> entry_le newitem (?h' ! c)"
    proof (intro allI impI)
      fix c assume c: "0 < c \<and> c < length ?h' \<and> (c - 1) div 2 = ?pp"
      show "entry_le newitem (?h' ! c)"
      proof (cases "c = pos")
        case True
        then show ?thesis using lt nth_pos by simp
      next
        case False
        have "(c - 1) div 2 \<noteq> pos" using c pp by simp
        then have "entry_le (heap ! ((c - 1) div 2)) (heap ! c)" using A[OF _ _ False] c by simp
        then have "entry_le (heap ! ?pp) (heap ! c)" using c by simp
        then have "entry_le newitem (heap ! c)" using lt entry_le_trans by blast
        then show ?thesis using False nth_other by simp
      qed
    qed
    have "heap_ok (siftdown_loop ?h' 0 ?pp newitem)"
      using "1.hyps"[OF _ refl refl _ len hole kids] True by simp
    then show ?thesis using True by (subst siftdown_loop.simps) (simp add: Let_def)
  next
    case False
    have eq: "siftdown_loop heap 0 pos newitem = heap[pos := newitem]"
      using False by (subst siftdown_loop.simps) (auto simp: Let_def)
    let ?h' = "heap[pos := newitem]"
    have nth_pos: "?h' ! pos = newitem" using len0 by simp
    have nth_other: "\<And>i. i \<noteq> pos \<Longrightarrow> ?h' ! i = heap ! i" by simp
    have "heap_ok ?h'"
      unfolding heap_ok_def
    proof (intro allI impI)
      fix i assume i: "0 < i \<and> i < length ?h'"
      show "entry_le (?h' ! ((i - 1) div 2)) (?h' ! i)"
      proof (cases "i = pos")
        case True
        then have "\<not> entry_lt newitem (heap ! ?pp)" using False i by simp
        moreover have "?pp \<noteq> pos" using True i by auto
        ultimately show ?thesis using True nth_pos nth_other by (simp add: entry_le_def)
      next
        case ne: False
        show ?thesis
        proof (cases "(i - 1) div 2 = pos")
          case True
          have "entry_le newitem (heap ! i)" using "1.prems"(3) True i by simp
          then show ?thesis using True ne nth_pos nth_other by simp
        next
          case False
          have "entry_le (heap ! ((i - 1) div 2)) (heap ! i)" using A[OF _ _ ne False] i by simp
          then show ?thesis using False ne nth_other by simp
        qed
      qed
    qed
    then show ?thesis using eq by simp
  qed
qed

lemma siftdown_loop_mset:
  "pos < length h \<Longrightarrow> mset (siftdown_loop h s pos x) = mset (h[pos := x])"
proof (induction h s pos x rule: siftdown_loop.induct)
  case (1 heap startpos pos newitem)
  let ?pp = "(pos - 1) div 2"
  show ?case
  proof (cases "startpos < pos \<and> entry_lt newitem (heap ! ?pp)")
    case True
    then have pp: "?pp < pos" by auto
    have "mset (siftdown_loop (heap[pos := heap ! ?pp]) startpos ?pp newitem)
          = mset (heap[pos := heap ! ?pp, ?pp := newitem])"
      using "1.IH"[OF _ refl refl] True pp "1.prems" by simp
    also have "\<dots> = mset (heap[pos := newitem])"
      using pp "1.prems" by (intro mset_swap_upd) auto
    finally show ?thesis using True by (subst siftdown_loop.simps) (simp add: Let_def)
  next
    case False
    then show ?thesis by (subst siftdown_loop.simps) (auto simp: Let_def)
  qed
qed

lemma siftup_loop_props:
  "siftup_loop h pos = (h', pos') \<Longrightarrow> pos < length h \<Longrightarrow> hole_ok h pos \<Longrightarrow>
   hole_ok h' pos' \<and> pos' < length h' \<and> length h' = length h \<and> length h' \<le> 2 * pos' + 1 \<and>
   mset (h'[pos' := x]) = mset (h[pos := x])"
proof (induction h pos arbitrary: h' pos' rule: siftup_loop.induct)
  case (1 heap pos)
  note A = hole_okD1[OF "1.prems"(3)]
  note C = hole_okD2[OF "1.prems"(3)]
  show ?case
  proof (cases "2 * pos + 1 < length heap")
    case False
    then have "siftup_loop heap pos = (heap, pos)"
      by (subst siftup_loop.simps) (simp add: Let_def)
    then show ?thesis using "1.prems" False by simp
  next
    case True
    define cp where "cp = (if 2 * pos + 1 + 1 < length heap \<and>
        \<not> entry_lt (heap ! (2 * pos + 1)) (heap ! (2 * pos + 1 + 1)) then 2 * pos + 1 + 1 else 2 * pos + 1)"
    let ?h = "heap[pos := heap ! cp]"
    have rec: "siftup_loop heap pos = siftup_loop ?h cp"
      using True by (subst siftup_loop.simps) (simp add: Let_def cp_def)
    have cp: "cp < length heap" "pos < cp" "(cp - 1) div 2 = pos" "0 < cp"
      using True by (auto simp: cp_def)
    have nth_pos: "?h ! pos = heap ! cp" using "1.prems"(2) by simp
    have nth_other: "\<And>i. i \<noteq> pos \<Longrightarrow> ?h ! i = heap ! i" by simp
    have sib: "\<And>i. 0 < i \<Longrightarrow> i < length heap \<Longrightarrow> (i - 1) div 2 = pos \<Longrightarrow> entry_le (heap ! cp) (heap ! i)"
    proof -
      fix i assume i: "0 < i" "i < length heap" "(i - 1) div 2 = pos"
      then have "i = 2 * pos + 1 \<or> i = 2 * pos + 1 + 1" by auto
      then show "entry_le (heap ! cp) (heap ! i)"
        using i(2) by (auto simp: cp_def entry_le_refl entry_le_def[symmetric] intro: entry_lt_le dest: entry_le_total)
    qed
    have hole: "hole_ok ?h cp"
      unfolding hole_ok_def
    proof (intro conjI allI impI)
      fix i assume i: "0 < i \<and> i < length ?h \<and> i \<noteq> cp \<and> (i - 1) div 2 \<noteq> cp"
      show "entry_le (?h ! ((i - 1) div 2)) (?h ! i)"
      proof (cases "i = pos")
        case True
        have pp: "(pos - 1) div 2 \<noteq> pos" using True i by auto
        have "entry_le (heap ! ((pos - 1) div 2)) (heap ! cp)"
          using C[OF _ cp(4) cp(1) cp(3)] True i by simp
        then show ?thesis using True pp nth_pos nth_other by simp
      next
        case ne: False
        show ?thesis
        proof (cases "(i - 1) div 2 = pos")
          case True
          have "entry_le (heap ! cp) (heap ! i)" using sib[OF _ _ True] i by simp
          then show ?thesis using True ne nth_pos nth_other by simp
        next
          case False
          have "entry_le (heap ! ((i - 1) div 2)) (heap ! i)" using A[OF _ _ ne False] i by simp
          then show ?thesis using False ne nth_other by simp
        qed
      qed
    next
      fix c assume c: "0 < c \<and> c < length ?h \<and> (c - 1) div 2 = cp"
      have ne: "c \<noteq> pos" "(c - 1) div 2 \<noteq> pos" using c cp by auto
      have "entry_le (heap ! ((c - 1) div 2)) (heap ! c)" using A[OF _ _ ne] c by simp
      then have "entry_le (heap ! cp) (heap ! c)" using c by simp
      then show "entry_le (?h ! ((cp - 1) div 2)) (?h ! c)"
        using cp(3) ne nth_pos nth_other by simp
    qed
    have res: "siftup_loop ?h cp = (h', pos')" using rec "1.prems"(1) by simp
    have len: "cp < length ?h" using cp by simp
    have IH: "hole_ok h' pos' \<and> pos' < length h' \<and> length h' = length ?h \<and> length h' \<le> 2 * pos' + 1 \<and>
      mset (h'[pos' := x]) = mset (?h[cp := x])"
      using "1.IH"[OF refl refl True refl _ res len hole] by (simp add: cp_def)
    have "mset (?h[cp := x]) = mset (heap[pos := x])"
      using cp "1.prems"(2) by (intro mset_swap_upd) auto
    then show ?thesis using IH by simp
  qed
qed

lemma heap_ok_root:
  "heap_ok h \<Longrightarrow> i < length h \<Longrightarrow> entry_le (h ! 0) (h ! i)"
proof (induction i rule: less_induct)
  case (less i)
  show ?case
  proof (cases "i = 0")
    case True
    then show ?thesis by (simp add: entry_le_refl)
  next
    case False
    then have p: "(i - 1) div 2 < i" by auto
    have "entry_le (h ! 0) (h ! ((i - 1) div 2))"
      using less.IH[OF p less.prems(1)] p less.prems(2) by simp
    moreover have "entry_le (h ! ((i - 1) div 2)) (h ! i)"
      using less.prems False by (simp add: heap_ok_def)
    ultimately show ?thesis using entry_le_trans by blast
  qed
qed

lemma heappush_props:
  assumes "heap_ok h"
  shows "heap_ok (heappush h x)" and "mset (heappush h x) = add_mset x (mset h)"
proof -
  let ?h = "h @ [x]"
  have hole: "hole_ok ?h (length h)"
    unfolding hole_ok_def
  proof (intro conjI allI impI)
    fix i assume i: "0 < i \<and> i < length ?h \<and> i \<noteq> length h \<and> (i - 1) div 2 \<noteq> length h"
    then have "i < length h" "(i - 1) div 2 < length h" by auto
    then show "entry_le (?h ! ((i - 1) div 2)) (?h ! i)"
      using assms i by (simp add: nth_append heap_ok_def)
  next
    fix c assume "0 < length h" "0 < c \<and> c < length ?h \<and> (c - 1) div 2 = length h"
    then have False by auto
    then show "entry_le (?h ! ((length h - 1) div 2)) (?h ! c)" ..
  qed
  have kids: "\<forall>c. 0 < c \<and> c < length ?h \<and> (c - 1) div 2 = length h \<longrightarrow> entry_le x (?h ! c)"
    by auto
  show "heap_ok (heappush h x)"
    unfolding heappush_def siftdown_def
    using siftdown_loop_heap[OF _ hole kids] by simp
  show "mset (heappush h x) = add_mset x (mset h)"
    unfolding heappush_def siftdown_def
    by (simp add: siftdown_loop_mset)
qed

lemma heap_ok_butlast: "heap_ok h \<Longrightarrow> heap_ok (butlast h)"
  by (auto simp: heap_ok_def nth_butlast)

lemma heappop_props:
  assumes "heap_ok h" "h \<noteq> []" "heappop h = (item, h')"
  shows "heap_ok h'" and "mset h = add_mset item (mset h')"
    and "\<forall>e \<in> set h. entry_le item e"
proof -
  have item: "item = h ! 0"
    using assms(2,3) by (cases h rule: rev_cases) (auto simp: heappop_def Let_def nth_append split: if_splits)
  show "\<forall>e \<in> set h. entry_le item e"
    using heap_ok_root[OF assms(1)] item by (metis in_set_conv_nth)
  show "heap_ok h'" "mset h = add_mset item (mset h')"
  proof -
    obtain b l where h: "h = b @ [l]" using assms(2) by (cases h rule: rev_cases) auto
    have "heap_ok h' \<and> mset h = add_mset item (mset h')"
    proof (cases "b = []")
      case True
      then show ?thesis using assms(3) h by (simp add: heappop_def heap_ok_def)
    next
      case False
      let ?h2 = "b[0 := l]"
      have hb: "heap_ok b" using heap_ok_butlast[OF assms(1)] h by simp
      have b0: "0 < length b" using False by simp
      have h': "h' = siftup ?h2 0" and item': "item = b ! 0"
        using assms(3) h False by (auto simp: heappop_def)
      obtain g p where sl: "siftup_loop ?h2 0 = (g, p)" by (cases "siftup_loop ?h2 0")
      have hole0: "hole_ok ?h2 0"
        using hb by (auto simp: hole_ok_def heap_ok_def)
      have P: "hole_ok g p \<and> p < length g \<and> length g = length ?h2 \<and> length g \<le> 2 * p + 1 \<and>
        mset (g[p := l]) = mset (?h2[0 := l])"
        using siftup_loop_props[OF sl _ hole0, of l] b0 by simp
      have eq: "h' = siftdown_loop (g[p := l]) 0 p l"
        using h' sl P b0 by (simp add: siftup_def siftdown_def)
      have kids: "\<forall>c. 0 < c \<and> c < length (g[p := l]) \<and> (c - 1) div 2 = p \<longrightarrow> entry_le l (g[p := l] ! c)"
        using P by auto
      have "heap_ok h'"
        unfolding eq using siftdown_loop_heap[OF _ _ kids] P by simp
      moreover have "mset h' = mset ?h2"
        unfolding eq using P by (simp add: siftdown_loop_mset)
      moreover have "mset h = add_mset (b ! 0) (mset ?h2)"
        using h b0 by (cases b) auto
      ultimately show ?thesis using item' by simp
    qed
    then show "heap_ok h'" "mset h = add_mset item (mset h')" by simp_all
  qed
qed

lemma frontier_heap_ok: "frontier pq \<Longrightarrow> heap_ok pq"
proof (induction rule: frontier.induct)
  case empty
  then show ?case by (simp add: heap_ok_def)
next
  case (push pq item)
  then show ?case by (simp add: heappush_props)
next
  case (pop pq)
  then show ?case using heappop_props(1)[of pq "fst (heappop pq)" "snd (heappop pq)"] by simp
qed

section \<open>One round of the search loops in closed form\<close>

lemma error_is_IndexError [simp]: "(e::error) = IndexError"
  by (cases e) simp

lemma wf_world_cell:
  "wf_world cols rows world \<Longrightarrow> 0 \<le> r \<Longrightarrow> r < rows \<Longrightarrow> 0 \<le> c \<Longrightarrow> c < cols \<Longrightarrow>
   world_cell world r c = Inr (world ! nat r ! nat c)"
  by (auto simp: wf_world_def world_cell_def)

lemma wf_world_no_raise: "wf_world cols rows world \<Longrightarrow> \<not> raises cols rows world p"
  by (auto simp: raises_def in_bounds_def wf_world_cell)

lemma dfs_visit_free:
  "free cols rows world (target (r, c) d) \<Longrightarrow>
   dfs_visit cols rows world r c cur (stack, explored, gen) (action, d) =
     (let s = \<lparr>position = target (r, c) d, dirty_cells = dirty_cells cur, path = path cur @ [action]\<rparr>
      in if key_of s \<notin> explored then Inr (stack @ [s], insert (key_of s) explored, gen + 1)
         else Inr (stack, explored, gen))"
  by (cases d) (auto simp: free_def in_bounds_def passable_def target_def key_of_def Let_def split: sum.splits)

lemma dfs_visit_blocked:
  "\<not> free cols rows world (target (r, c) d) \<Longrightarrow> \<not> raises cols rows world (target (r, c) d) \<Longrightarrow>
   dfs_visit cols rows world r c cur (stack, explored, gen) (action, d) = Inr (stack, explored, gen)"
  by (cases d) (auto simp: free_def in_bounds_def passable_def raises_def target_def Let_def split: sum.splits)

lemma dfs_visit_raises:
  "raises cols rows world (target (r, c) d) \<Longrightarrow>
   dfs_visit cols rows world r c cur (stack, explored, gen) (action, d) = Inl IndexError"
  by (cases d) (auto simp: raises_def in_bounds_def target_def Let_def)

lemma ucs_visit_free:
  "free cols rows world (target (r, c) d) \<Longrightarrow>
   ucs_visit cols rows world r c cur (pq, explored, gen) (action, d) =
     (let s = \<lparr>position = target (r, c) d, dirty_cells = dirty_cells cur, path = path cur @ [action]\<rparr>
      in if key_of s \<notin> explored
         then Inr (heappush pq (entry_of s), insert (key_of s) explored, gen + 1)
         else Inr (pq, explored, gen))"
  by (cases d) (auto simp: free_def in_bounds_def passable_def target_def key_of_def entry_of_def Let_def split: sum.splits)

lemma ucs_visit_blocked:
  "\<not> free cols rows world (target (r, c) d) \<Longrightarrow> \<not> raises cols rows world (target (r, c) d) \<Longrightarrow>
   ucs_visit cols rows world r c cur (pq, explored, gen) (action, d) = Inr (pq, explored, gen)"
  by (cases d) (auto simp: free_def in_bounds_def passable_def raises_def target_def Let_def split: sum.splits)

lemma ucs_visit_raises:
  "raises cols rows world (target (r, c) d) \<Longrightarrow>
   ucs_visit cols rows world r c cur (pq, explored, gen) (action, d) = Inl IndexError"
  by (cases d) (auto simp: raises_def in_bounds_def target_def Let_def)

lemma succ_list_Nil [simp]: "succ_list cols rows world cur [] = []"
  by (simp add: succ_list_def)

lemma succ_list_Cons:
  "succ_list cols rows world cur ((action, d) # ds) =
     (if free cols rows world (target (position cur) d)
      then \<lparr>position = target (position cur) d, dirty_cells = dirty_cells cur,
            path = path cur @ [action]\<rparr> # succ_list cols rows world cur ds
      else succ_list cols rows world cur ds)"
  by (simp add: succ_list_def)

lemma key_of_succ_list:
  "s \<in> set (succ_list cols rows world cur ds) \<Longrightarrow>
   \<exists>a d. (a, d) \<in> set ds \<and> key_of s = (target (position cur) d, dirty_cells cur)"
  by (fastforce simp: succ_list_def key_of_def)

lemma target_inj: "target p d = target p d' \<Longrightarrow> d = d'"
  by (cases d; cases d') (simp add: target_def)

lemma fresh_filter:
  assumes "distinct (map snd ((a, d) # ds))"
  shows "filter (\<lambda>s. key_of s \<notin> insert (target (position cur) d, dirty_cells cur) explored)
           (succ_list cols rows world cur ds)
         = filter (\<lambda>s. key_of s \<notin> explored) (succ_list cols rows world cur ds)"
proof (intro filter_cong refl)
  fix t assume t: "t \<in> set (succ_list cols rows world cur ds)"
  obtain a' d' where d': "(a', d') \<in> set ds" "key_of t = (target (position cur) d', dirty_cells cur)"
    using key_of_succ_list[OF t] by blast
  have "d' \<noteq> d" using d'(1) assms by force
  then have "target (position cur) d' \<noteq> target (position cur) d" using target_inj by blast
  then show "(key_of t \<notin> insert (target (position cur) d, dirty_cells cur) explored) = (key_of t \<notin> explored)"
    using d'(2) by simp
qed

lemma dfs_for_succ_list:
  assumes "distinct (map snd ds)" and "position cur = (r, c)"
  shows "dfs_for cols rows world r c cur ds (stack, explored, gen) =
     (if \<exists>(a, d) \<in> set ds. raises cols rows world (target (position cur) d) then Inl IndexError
      else let new = filter (\<lambda>s. key_of s \<notin> explored) (succ_list cols rows world cur ds)
           in Inr (stack @ new, explored \<union> key_of ` set new, gen + length new))"
  using assms(1)
proof (induction ds arbitrary: stack explored gen)
  case Nil
  then show ?case by simp
next
  case (Cons x ds)
  obtain a d where x: "x = (a, d)" by (cases x)
  let ?s = "\<lparr>position = target (position cur) d, dirty_cells = dirty_cells cur, path = path cur @ [a]\<rparr>"
  have k: "key_of ?s = (target (position cur) d, dirty_cells cur)" by (simp add: key_of_def)
  note ff = fresh_filter[OF Cons.prems[unfolded x], of cur _ cols rows world]
  have IH: "\<And>stack explored gen. dfs_for cols rows world r c cur ds (stack, explored, gen) =
     (if \<exists>(a, d) \<in> set ds. raises cols rows world (target (position cur) d) then Inl IndexError
      else let new = filter (\<lambda>s. key_of s \<notin> explored) (succ_list cols rows world cur ds)
           in Inr (stack @ new, explored \<union> key_of ` set new, gen + length new))"
    using Cons.IH Cons.prems by simp
  show ?case
  proof (cases "raises cols rows world (target (r, c) d)")
    case True
    then show ?thesis using x assms(2) by (simp add: dfs_visit_raises)
  next
    case nr: False
    show ?thesis
    proof (cases "free cols rows world (target (r, c) d)")
      case False
      then show ?thesis
        using nr x assms(2) by (simp add: dfs_visit_blocked IH succ_list_Cons)
    next
      case True
      then show ?thesis
        using nr x assms(2) k ff
        by (simp add: dfs_visit_free IH succ_list_Cons Let_def)
    qed
  qed
qed

lemma ucs_for_succ_list:
  assumes "distinct (map snd ds)" and "position cur = (r, c)"
  shows "ucs_for cols rows world r c cur ds (pq, explored, gen) =
     (if \<exists>(a, d) \<in> set ds. raises cols rows world (target (position cur) d) then Inl IndexError
      else let new = filter (\<lambda>s. key_of s \<notin> explored) (succ_list cols rows world cur ds)
           in Inr (foldl heappush pq (map entry_of new), explored \<union> key_of ` set new, gen + length new))"
  using assms(1)
proof (induction ds arbitrary: pq explored gen)
  case Nil
  then show ?case by simp
next
  case (Cons x ds)
  obtain a d where x: "x = (a, d)" by (cases x)
  let ?s = "\<lparr>position = target (position cur) d, dirty_cells = dirty_cells cur, path = path cur @ [a]\<rparr>"
  have k: "key_of ?s = (target (position cur) d, dirty_cells cur)" by (simp add: key_of_def)
  note ff = fresh_filter[OF Cons.prems[unfolded x], of cur _ cols rows world]
  have IH: "\<And>pq explored gen. ucs_for cols rows world r c cur ds (pq, explored, gen) =
     (if \<exists>(a, d) \<in> set ds. raises cols rows world (target (position cur) d) then Inl IndexError
      else let new = filter (\<lambda>s. key_of s \<notin> explored) (succ_list cols rows world cur ds)
           in Inr (foldl heappush pq (map entry_of new), explored \<union> key_of ` set new, gen + length new))"
    using Cons.IH Cons.prems by simp
  show ?case
  proof (cases "raises cols rows world (target (r, c) d)")
    case True
    then show ?thesis using x assms(2) by (simp add: ucs_visit_raises)
  next
    case nr: False
    show ?thesis
    proof (cases "free cols rows world (target (r, c) d)")
      case False
      then show ?thesis
        using nr x assms(2) by (simp add: ucs_visit_blocked IH succ_list_Cons)
    next
      case True
      then show ?thesis
        using nr x assms(2) k ff
        by (simp add: ucs_visit_free IH succ_list_Cons Let_def)
    qed
  qed
qed

lemma distinct_directions: "distinct (map snd directions)"
  by (simp add: directions_def)

lemma succ_list_directions:
  "succ_list cols rows world cur directions = spec_successors cols rows world cur"
  by (cases "position cur")
     (simp add: succ_list_def spec_successors_def directions_def target_def free_def)

lemma dfs_expand_eq:
  "dfs_expand cols rows world cur0 stack explored exp gen =
     (let cur = vacuumed cur0;
          new = filter (\<lambda>s. key_of s \<notin> explored) (spec_successors cols rows world cur)
      in if dirty_cells cur = {||} then Inl (Inr (Solved (path cur) gen exp))
         else if \<exists>(a, d) \<in> set directions. raises cols rows world (target (position cur) d)
         then Inl (Inl IndexError)
         else Inr (stack @ new, explored \<union> key_of ` set new, exp, gen + length new))"
proof -
  obtain r c where rc: "position cur0 = (r, c)" by (cases "position cur0")
  have pv: "position (vacuumed cur0) = (r, c)" using rc by (simp add: vacuumed_def)
  have "dfs_expand cols rows world cur0 stack explored exp gen =
     (if dirty_cells (vacuumed cur0) = {||} then Inl (Inr (Solved (path (vacuumed cur0)) gen exp))
      else (case dfs_for cols rows world r c (vacuumed cur0) directions (stack, explored, gen) of
              Inl e \<Rightarrow> Inl (Inl e)
            | Inr (stack', explored', gen') \<Rightarrow> Inr (stack', explored', exp, gen')))"
    by (simp add: dfs_expand_def vacuumed_def rc Let_def)
  then show ?thesis
    unfolding dfs_for_succ_list[OF distinct_directions pv] succ_list_directions
    by (simp add: Let_def pv)
qed

lemma ucs_expand_eq:
  "ucs_expand cols rows world cur0 pq explored exp gen =
     (let cur = vacuumed cur0;
          new = filter (\<lambda>s. key_of s \<notin> explored) (spec_successors cols rows world cur)
      in if dirty_cells cur = {||} then Inl (Inr (Solved (path cur) gen exp))
         else if \<exists>(a, d) \<in> set directions. raises cols rows world (target (position cur) d)
         then Inl (Inl IndexError)
         else Inr (foldl heappush pq (map entry_of new),
                   explored \<union> key_of ` set new, exp, gen + length new))"
proof -
  obtain r c where rc: "position cur0 = (r, c)" by (cases "position cur0")
  have pv: "position (vacuumed cur0) = (r, c)" using rc by (simp add: vacuumed_def)
  have "ucs_expand cols rows world cur0 pq explored exp gen =
     (if dirty_cells (vacuumed cur0) = {||} then Inl (Inr (Solved (path (vacuumed cur0)) gen exp))
      else (case ucs_for cols rows world r c (vacuumed cur0) directions (pq, explored, gen) of
              Inl e \<Rightarrow> Inl (Inl e)
            | Inr (pq', explored', gen') \<Rightarrow> Inr (pq', explored', exp, gen')))"
    by (simp add: ucs_expand_def vacuumed_def rc Let_def)
  then show ?thesis
    unfolding ucs_for_succ_list[OF distinct_directions pv] succ_list_directions
    by (simp add: Let_def pv)
qed

lemma dfs_round_eq:
  "dfs_round cols rows world stack explored exp gen =
     (let cur = vacuumed (last stack);
          new = filter (\<lambda>s. key_of s \<notin> explored) (spec_successors cols rows world cur)
      in if dirty_cells cur = {||} then Inl (Inr (Solved (path cur) gen (exp + 1)))
         else if \<exists>(a, d) \<in> set directions. raises cols rows world (target (position cur) d)
         then Inl (Inl IndexError)
         else Inr (butlast stack @ new, explored \<union> key_of ` set new, exp + 1, gen + length new))"
  by (simp add: dfs_round_def dfs_expand_eq Let_def)

lemma ucs_round_eq:
  "ucs_round cols rows world pq explored exp gen =
     (let cur = vacuumed (snd (fst (heappop pq)));
          new = filter (\<lambda>s. key_of s \<notin> explored) (spec_successors cols rows world cur)
      in if dirty_cells cur = {||} then Inl (Inr (Solved (path cur) gen (exp + 1)))
         else if \<exists>(a, d) \<in> set directions. raises cols rows world (target (position cur) d)
         then Inl (Inl IndexError)
         else Inr (foldl heappush (snd (heappop pq)) (map entry_of new),
                   explored \<union> key_of ` set new, exp + 1, gen + length new))"
  by (simp add: ucs_round_def ucs_expand_eq Let_def case_prod_beta)

lemma mset_heappush: "mset (heappush h x) = add_mset x (mset h)"
  by (simp add: heappush_def siftdown_def siftdown_loop_mset)

lemma mset_foldl_heappush: "mset (foldl heappush h xs) = mset h + mset xs"
  by (induction xs arbitrary: h) (simp_all add: mset_heappush)

lemma length_foldl_heappush: "length (foldl heappush h xs) = length h + length xs"
  using arg_cong[OF mset_foldl_heappush, of size h xs] by simp

lemma heap_ok_foldl_heappush: "heap_ok h \<Longrightarrow> heap_ok (foldl heappush h xs)"
  by (induction xs arbitrary: h) (simp_all add: heappush_props)

lemma vacuumed_idem [simp]: "vacuumed (vacuumed s) = vacuumed s"
  by (simp add: vacuumed_def)

section \<open>The search graph and the invariants of the loops\<close>

lemma position_vacuumed [simp]: "position (vacuumed n) = position n"
  by (simp add: vacuumed_def)

lemma dirty_vacuumed: "dirty_cells (vacuumed n) = dirty_cells n |-| {|position n|}"
  by (auto simp: vacuumed_def)

lemma path_vacuumed:
  "path (vacuumed n) = path n @ (if position n |\<in>| dirty_cells n then [''V''] else [])"
  by (simp add: vacuumed_def)

lemma key_of_simps [simp]: "fst (key_of n) = position n" "snd (key_of n) = dirty_cells n"
  by (simp_all add: key_of_def)

lemma spec_successors_iff:
  "s \<in> set (spec_successors cols rows world cur) \<longleftrightarrow>
   (\<exists>a d. (a, d) \<in> set directions \<and> free cols rows world (target (position cur) d) \<and>
      s = \<lparr>position = target (position cur) d, dirty_cells = dirty_cells cur, path = path cur @ [a]\<rparr>)"
  unfolding succ_list_directions[symmetric] succ_list_def by auto

lemma key_of_spec_successors:
  "key_of ` set (spec_successors cols rows world cur) =
   (\<lambda>q. (q, dirty_cells cur)) ` set (nbrs cols rows world (position cur))"
  by (cases "position cur")
     (auto simp: spec_successors_def nbrs_def key_of_def free_def image_iff)

lemma distinct_key_of_spec_successors:
  "distinct (map key_of (spec_successors cols rows world cur))"
  by (cases "position cur") (auto simp: spec_successors_def key_of_def)

lemma length_path_spec_successors:
  "s \<in> set (spec_successors cols rows world cur) \<Longrightarrow> length (path s) = length (path cur) + 1"
  by (auto simp: spec_successors_iff)

lemma dirty_spec_successors:
  "s \<in> set (spec_successors cols rows world cur) \<Longrightarrow> dirty_cells s = dirty_cells cur"
  by (auto simp: spec_successors_iff)

lemma in_bounds_spec_successors:
  "s \<in> set (spec_successors cols rows world cur) \<Longrightarrow> in_bounds cols rows (position s)"
  by (auto simp: spec_successors_iff free_def)

lemma map_of_directions:
  "(a, d) \<in> set directions \<Longrightarrow> map_of directions a = Some d \<and> a \<noteq> ''V''"
  by (auto simp: directions_def)

lemma replay_append:
  "replay cols rows world k (as @ bs) =
     (case replay cols rows world k as of None \<Rightarrow> None | Some k' \<Rightarrow> replay cols rows world k' bs)"
  by (induction as arbitrary: k) (auto split: option.splits)

lemma reach_replay:
  "reach cols rows world start n \<Longrightarrow>
   \<exists>acts. path n = path start @ acts \<and> replay cols rows world (key_of start) acts = Some (key_of n)"
proof (induction rule: reach.induct)
  case reach_start
  then show ?case by simp
next
  case (reach_step n s)
  then obtain acts where acts: "path n = path start @ acts"
    "replay cols rows world (key_of start) acts = Some (key_of n)" by blast
  obtain a d where ad: "(a, d) \<in> set directions" "free cols rows world (target (position n) d)"
    "s = \<lparr>position = target (position n) d, dirty_cells = dirty_cells (vacuumed n),
          path = path (vacuumed n) @ [a]\<rparr>"
    using reach_step.hyps(3) by (auto simp: spec_successors_iff)
  let ?v = "if position n |\<in>| dirty_cells n then [''V''] else []"
  have v: "replay cols rows world (key_of n) ?v = Some (key_of (vacuumed n))"
    by (auto simp: key_of_def vacuumed_def)
  have m: "replay cols rows world (key_of (vacuumed n)) [a] = Some (key_of s)"
    using ad map_of_directions[OF ad(1)] by (simp add: key_of_def)
  have "path s = path start @ (acts @ ?v @ [a])"
    using ad(3) acts(1) by (simp add: path_vacuumed)
  moreover have "replay cols rows world (key_of start) (acts @ ?v @ [a]) = Some (key_of s)"
    using acts(2) v m by (simp add: replay_append)
  ultimately show ?case by blast
qed

lemma reach_dirty_subset:
  "reach cols rows world start n \<Longrightarrow> dirty_cells n |\<subseteq>| dirty_cells start"
  by (induction rule: reach.induct) (auto simp: dirty_spec_successors dirty_vacuumed)

lemma finite_universe: "finite (universe cols rows D)"
proof -
  have "{d. d |\<subseteq>| D} = fset (fPow D)" by auto
  then show ?thesis by (simp add: universe_def)
qed

lemma card_universe: "card (universe cols rows D) = nat rows * nat cols * 2 ^ fcard D"
proof -
  have "fset ` {d. d |\<subseteq>| D} = Pow (fset D)"
  proof (intro equalityI subsetI)
    fix A assume "A \<in> Pow (fset D)"
    then have "finite A" "A \<subseteq> fset D" by (auto intro: finite_subset)
    then have "fset (Abs_fset A) = A" "Abs_fset A |\<subseteq>| D"
      by (simp_all add: Abs_fset_inverse less_eq_fset.rep_eq)
    then show "A \<in> fset ` {d. d |\<subseteq>| D}" by (metis imageI mem_Collect_eq)
  qed (auto simp: less_eq_fset.rep_eq)
  moreover have "card (fset ` {d. d |\<subseteq>| D}) = card {d. d |\<subseteq>| D}"
    by (intro card_image) (auto simp: inj_on_def fset_inject)
  ultimately have "card {d. d |\<subseteq>| D} = 2 ^ fcard D"
    by (simp add: card_Pow fcard.rep_eq)
  then show ?thesis by (simp add: universe_def card_cartesian_product)
qed

lemma base_inv_init: "base_inv cols rows world start {#start#} {} 0 0"
  by (simp add: base_inv_def reach_start)

lemma closed_mono: "closed cols rows world E k \<Longrightarrow> E \<subseteq> E' \<Longrightarrow> closed cols rows world E' k"
  by (auto simp: closed_def)

lemma new_keys:
  assumes "new = filter (\<lambda>s. key_of s \<notin> E) (spec_successors cols rows world cur)"
  shows "card (key_of ` set new) = length new" and "key_of ` set new \<inter> E = {}"
    and "E \<union> key_of ` set new = E \<union> key_of ` set (spec_successors cols rows world cur)"
proof -
  have "distinct (map key_of new)"
    unfolding assms using distinct_key_of_spec_successors by (simp add: distinct_map_filter)
  then show "card (key_of ` set new) = length new"
    by (metis distinct_card length_map set_map)
  show "key_of ` set new \<inter> E = {}" unfolding assms by auto
  show "E \<union> key_of ` set new = E \<union> key_of ` set (spec_successors cols rows world cur)"
    unfolding assms by auto
qed

lemma base_inv_step:
  assumes inv: "base_inv cols rows world start (add_mset cur0 F) E exp gen"
    and ng: "dirty_cells (vacuumed cur0) \<noteq> {||}"
    and new: "new = filter (\<lambda>s. key_of s \<notin> E) (spec_successors cols rows world (vacuumed cur0))"
  shows "base_inv cols rows world start (F + mset new) (E \<union> key_of ` set new) (exp + 1) (gen + length new)"
    and "search_measure cols rows start (size (F + mset new)) (E \<union> key_of ` set new)
         < search_measure cols rows start (size (add_mset cur0 F)) E"
proof -
  let ?U = "universe cols rows (dirty_cells start)"
  let ?K = "key_of ` set new"
  have r0: "reach cols rows world start cur0" using inv by (simp add: base_inv_def)
  have rnew: "\<And>s. s \<in> set new \<Longrightarrow> reach cols rows world start s"
    using reach_step[OF r0 ng] new by simp
  have "E \<subseteq> ?U" using inv by (simp add: base_inv_def)
  then have finE: "finite E" using finite_universe by (rule finite_subset)
  have KU: "?K \<subseteq> ?U"
  proof
    fix k assume "k \<in> ?K"
    then obtain s where s: "s \<in> set new" "k = key_of s" by blast
    then have "s \<in> set (spec_successors cols rows world (vacuumed cur0))" using new by simp
    then have "in_bounds cols rows (position s)" by (rule in_bounds_spec_successors)
    moreover have "dirty_cells s |\<subseteq>| dirty_cells start" using reach_dirty_subset[OF rnew[OF s(1)]] .
    ultimately show "k \<in> ?U" using s(2) by (cases "position s") (auto simp: universe_def in_bounds_def key_of_def)
  qed
  note nk = new_keys[OF new]
  have cardE: "card (E \<union> ?K) = gen + length new"
    using nk(1,2) inv finE by (simp add: card_Un_disjoint base_inv_def Int_commute)
  have cl0: "closed cols rows world (E \<union> ?K) (key_of cur0)"
    unfolding closed_def nk(3)
    using ng key_of_spec_successors[of cols rows world "vacuumed cur0"]
    by (auto simp: dirty_vacuumed)
  show "base_inv cols rows world start (F + mset new) (E \<union> ?K) (exp + 1) (gen + length new)"
    unfolding base_inv_def
  proof (intro conjI ballI)
    fix n assume "n \<in># F + mset new"
    then show "reach cols rows world start n" using inv rnew by (auto simp: base_inv_def)
  next
    fix k assume "k \<in> E \<union> ?K"
    then show "\<exists>n. reach cols rows world start n \<and> key_of n = k"
      using inv rnew by (auto simp: base_inv_def)
  next
    show "E \<union> ?K \<subseteq> ?U" using KU inv by (simp add: base_inv_def)
    show "card (E \<union> ?K) = gen + length new" by (rule cardE)
    show "exp + 1 + size (F + mset new) = gen + length new + 1"
      using inv by (simp add: base_inv_def)
  next
    fix k assume k: "k \<in> insert (key_of start) (E \<union> ?K)"
    show "k \<in> key_of ` set_mset (F + mset new) \<or> closed cols rows world (E \<union> ?K) k"
    proof (cases "k \<in> insert (key_of start) E")
      case True
      then have "k \<in> key_of ` set_mset (add_mset cur0 F) \<or> closed cols rows world E k"
        using inv unfolding base_inv_def by blast
      then show ?thesis using cl0 closed_mono[of cols rows world E k "E \<union> ?K"] by auto
    next
      case False
      then show ?thesis using k by auto
    qed
  qed
  have "card (?U - (E \<union> ?K)) = card (?U - E) - card ?K"
  proof -
    have "?U - (E \<union> ?K) = (?U - E) - ?K" by auto
    moreover have "?K \<subseteq> ?U - E" using KU nk(2) by auto
    ultimately show ?thesis by (simp add: card_Diff_subset finite_subset[OF KU finite_universe])
  qed
  moreover have "card ?K \<le> card (?U - E)"
    using KU nk(2) by (intro card_mono) (auto simp: finite_universe)
  ultimately show "search_measure cols rows start (size (F + mset new)) (E \<union> ?K)
         < search_measure cols rows start (size (add_mset cur0 F)) E"
    using nk(1) by (simp add: search_measure_def)
qed

lemma all_closed_reach:
  assumes "\<forall>k \<in> insert (key_of start) E. closed cols rows world E k"
    and "reach cols rows world start n"
  shows "key_of n \<in> insert (key_of start) E"
  using assms(2)
proof (induction rule: reach.induct)
  case reach_start
  then show ?case by simp
next
  case (reach_step n s)
  then have "closed cols rows world E (key_of n)" using assms(1) by blast
  moreover have "key_of s \<in> (\<lambda>q. (q, dirty_cells (vacuumed n))) ` set (nbrs cols rows world (position n))"
    using reach_step.hyps(3) key_of_spec_successors[of cols rows world "vacuumed n"] by auto
  ultimately show ?case by (auto simp: closed_def dirty_vacuumed)
qed

lemma base_inv_gen_bound:
  "base_inv cols rows world start F E exp gen \<Longrightarrow> gen \<le> card (universe cols rows (dirty_cells start))"
  unfolding base_inv_def using card_mono[OF finite_universe] by blast

lemma base_inv_empty:
  assumes "base_inv cols rows world start {#} E exp gen"
  shows "search_post cols rows world start (Inr (Exhausted gen exp))"
proof -
  have cl: "\<forall>k \<in> insert (key_of start) E. closed cols rows world E k"
    using assms by (simp add: base_inv_def)
  have "\<And>n. reach cols rows world start n \<Longrightarrow> dirty_cells (vacuumed n) \<noteq> {||}"
  proof -
    fix n assume "reach cols rows world start n"
    then have "closed cols rows world E (key_of n)" using all_closed_reach[OF cl] cl by blast
    then show "dirty_cells (vacuumed n) \<noteq> {||}" by (simp add: closed_def dirty_vacuumed)
  qed
  moreover have "exp = gen + 1" using assms by (simp add: base_inv_def)
  ultimately show ?thesis using base_inv_gen_bound[OF assms] by (simp add: search_post_def)
qed

lemma base_inv_solved:
  assumes "base_inv cols rows world start (add_mset cur0 F) E exp gen"
    and "dirty_cells (vacuumed cur0) = {||}"
  shows "search_post cols rows world start (Inr (Solved (path (vacuumed cur0)) gen (exp + 1)))"
proof -
  have "reach cols rows world start cur0" using assms(1) by (simp add: base_inv_def)
  moreover have "exp + 1 \<le> gen + 1" using assms(1) by (simp add: base_inv_def)
  ultimately show ?thesis using assms(2) base_inv_gen_bound[OF assms(1)]
    by (auto simp: search_post_def)
qed

lemma raises_post:
  assumes "\<exists>(a, d) \<in> set directions. raises cols rows world (target p d)"
  shows "search_post cols rows world start (Inl IndexError)"
proof -
  obtain a d where "raises cols rows world (target p d)" using assms by auto
  then have "\<exists>p. raises cols rows world p" by blast
  then show ?thesis by (simp only: search_post_def sum.case)
qed

lemma dfs_loop_post:
  "base_inv cols rows world start (mset stack) explored exp gen \<Longrightarrow>
   \<exists>res. dfs_loop cols rows world stack explored exp gen = Some res \<and>
         search_post cols rows world start res"
proof (induction "search_measure cols rows start (length stack) explored"
    arbitrary: stack explored exp gen rule: less_induct)
  case less
  show ?case
  proof (cases "stack = []")
    case True
    then show ?thesis
      using base_inv_empty[of cols rows world start explored exp gen] less.prems
      by (subst dfs_loop.simps) simp
  next
    case False
    define cur0 where "cur0 = last stack"
    define new where "new = filter (\<lambda>s. key_of s \<notin> explored)
        (spec_successors cols rows world (vacuumed cur0))"
    have ms: "mset stack = add_mset cur0 (mset (butlast stack))"
      using False unfolding cur0_def by (metis append_butlast_last_id mset.simps(2) mset_append union_mset_add_mset_right add.right_neutral mset.simps(1))
    have inv: "base_inv cols rows world start (add_mset cur0 (mset (butlast stack))) explored exp gen"
      using less.prems ms by simp
    show ?thesis
    proof (cases "dirty_cells (vacuumed cur0) = {||}")
      case True
      then show ?thesis
        using base_inv_solved[OF inv True] False
        by (subst dfs_loop.simps) (simp add: dfs_round_eq cur0_def)
    next
      case ng: False
      show ?thesis
      proof (cases "\<exists>(a, d) \<in> set directions. raises cols rows world (target (position cur0) d)")
        case True
        then show ?thesis
          using raises_post[OF True, of start] False ng
          by (subst dfs_loop.simps) (simp add: dfs_round_eq cur0_def)
      next
        case nr: False
        note st = base_inv_step[OF inv ng new_def]
        have m: "search_measure cols rows start (length (butlast stack @ new)) (explored \<union> key_of ` set new)
            < search_measure cols rows start (length stack) explored"
          using st(2) False by simp
        have i: "base_inv cols rows world start (mset (butlast stack @ new)) (explored \<union> key_of ` set new)
            (exp + 1) (gen + length new)"
          using st(1) by simp
        have "dfs_loop cols rows world stack explored exp gen =
            dfs_loop cols rows world (butlast stack @ new) (explored \<union> key_of ` set new)
              (exp + 1) (gen + length new)"
          using False ng nr
          by (subst dfs_loop.simps) (simp add: dfs_round_eq cur0_def[symmetric] new_def[symmetric] Let_def)
        then show ?thesis using less.hyps[OF m i] by simp
      qed
    qed
  qed
qed

lemma solves_vacuumed:
  assumes "solves cols rows world (p, X |-| {|p|}) n"
  shows "solves cols rows world (p, X) (n + (if p |\<in>| X then 1 else 0))"
  using assms
proof (cases rule: solves.cases)
  case solves_goal
  then have "snd (p, X) |-| {|fst (p, X)|} = {||}" and "n = 0" by auto
  then show ?thesis using solves.solves_goal[of "(p, X)" cols rows world] by simp
next
  case (solves_step q m)
  have e: "X |-| {|p|} |-| {|p|} = X |-| {|p|}" by auto
  have "snd (p, X) |-| {|fst (p, X)|} \<noteq> {||}" using solves_step(2) by (simp add: e)
  moreover have "q \<in> set (nbrs cols rows world (fst (p, X)))" using solves_step(3) by simp
  moreover have "solves cols rows world (q, snd (p, X) |-| {|fst (p, X)|}) m"
    using solves_step(4) by (simp add: e)
  ultimately have "solves cols rows world (p, X) (m + 1 + (if fst (p, X) |\<in>| snd (p, X) then 1 else 0))"
    by (rule solves.solves_step)
  then show ?thesis using solves_step(1) by simp
qed

lemma fcard_minus_put_back:
  "p |\<in>| D' \<Longrightarrow> D' |\<subseteq>| D \<Longrightarrow> fcard (D |-| (D' |-| {|p|})) = fcard (D |-| D') + 1"
proof -
  assume a: "p |\<in>| D'" "D' |\<subseteq>| D"
  have "D |-| (D' |-| {|p|}) = finsert p (D |-| D')" using a by auto
  moreover have "p |\<notin>| D |-| D'" using a by auto
  ultimately show ?thesis by (simp add: fcard_finsert_disjoint)
qed

lemma fcard_minus_both:
  "fcard (D |-| D') \<le> fcard ((D |-| {|p|}) |-| (D' |-| {|p|})) + 1"
proof -
  have e: "(D |-| {|p|}) |-| (D' |-| {|p|}) = (D |-| D') |-| {|p|}" by auto
  have "fcard (D |-| D') \<le> fcard ((D |-| D') |-| {|p|}) + 1"
    unfolding fcard_fminus_fsingleton_if by (simp; arith)
  then show ?thesis unfolding e .
qed

lemma move_in_nbrs:
  "map_of directions a = Some d \<Longrightarrow> free cols rows world (target p d) \<Longrightarrow>
   target p d \<in> set (nbrs cols rows world p)"
  by (auto simp: directions_def nbrs_def target_def split: if_splits)

lemma replay_solves:
  "replay cols rows world (p, D) acts = Some (p', {||}) \<Longrightarrow> D' |\<subseteq>| D \<Longrightarrow>
   \<exists>n. solves cols rows world (p, D') n \<and> n + fcard (D |-| D') \<le> length acts"
proof (induction acts arbitrary: p D D')
  case Nil
  then have "D = {||}" "D' = {||}" by auto
  then show ?case using solves_goal[of "(p, {||})" cols rows world] by auto
next
  case (Cons a acts)
  show ?case
  proof (cases "a = ''V''")
    case True
    then have r: "replay cols rows world (p, D |-| {|p|}) acts = Some (p', {||})"
      using Cons.prems(1) by simp
    have sub: "D' |-| {|p|} |\<subseteq>| D |-| {|p|}" using Cons.prems(2) by auto
    obtain n where n: "solves cols rows world (p, D' |-| {|p|}) n"
      "n + fcard ((D |-| {|p|}) |-| (D' |-| {|p|})) \<le> length acts"
      using Cons.IH[OF r sub] by blast
    have s: "solves cols rows world (p, D') (n + (if p |\<in>| D' then 1 else 0))"
      using solves_vacuumed[OF n(1)] .
    have "n + (if p |\<in>| D' then 1 else 0) + fcard (D |-| D') \<le> length (a # acts)"
    proof (cases "p |\<in>| D'")
      case True
      then have "(D |-| {|p|}) |-| (D' |-| {|p|}) = D |-| D'" by auto
      then show ?thesis using n(2) True by simp
    next
      case False
      then show ?thesis using n(2) fcard_minus_both[of D D' p] by simp
    qed
    then show ?thesis using s by blast
  next
    case False
    then obtain d where d: "map_of directions a = Some d" "free cols rows world (target p d)"
      and r: "replay cols rows world (target p d, D) acts = Some (p', {||})"
      using Cons.prems(1) by (auto split: option.splits if_splits)
    have q: "target p d \<in> set (nbrs cols rows world p)" using move_in_nbrs[OF d] .
    show ?thesis
    proof (cases "D' |-| {|p|} = {||}")
      case True
      obtain n0 where "n0 + fcard (D |-| {||}) \<le> length acts"
        using Cons.IH[OF r, of "{||}"] by auto
      then have dl: "fcard D \<le> length acts" by simp
      have g: "solves cols rows world (p, D') (if p |\<in>| D' then 1 else 0)"
        using solves_goal[of "(p, D')" cols rows world] True by simp
      have "(if p |\<in>| D' then 1 else 0) + fcard (D |-| D') \<le> length (a # acts)"
      proof (cases "p |\<in>| D'")
        case True
        have "fcard (D |-| D') \<le> fcard D" by (intro fcard_mono) auto
        then show ?thesis using dl by simp
      next
        case False
        have "fcard (D |-| D') \<le> fcard D" by (intro fcard_mono) auto
        then show ?thesis using dl False by simp
      qed
      then show ?thesis using g by blast
    next
      case ne: False
      have sub: "D' |-| {|p|} |\<subseteq>| D" using Cons.prems(2) by auto
      obtain n where n: "solves cols rows world (target p d, D' |-| {|p|}) n"
        "n + fcard (D |-| (D' |-| {|p|})) \<le> length acts"
        using Cons.IH[OF r sub] by blast
      have s: "solves cols rows world (p, D') (n + 1 + (if p |\<in>| D' then 1 else 0))"
        using solves_step[of "(p, D')" "target p d" cols rows world n] ne q n(1) by simp
      have "n + 1 + (if p |\<in>| D' then 1 else 0) + fcard (D |-| D') \<le> length (a # acts)"
      proof (cases "p |\<in>| D'")
        case True
        then show ?thesis using n(2) fcard_minus_put_back[OF True Cons.prems(2)] by simp
      next
        case False
        then have "D' |-| {|p|} = D'" by auto
        then show ?thesis using n(2) False by simp
      qed
      then show ?thesis using s by blast
    qed
  qed
qed

lemma solves_reach:
  "solves cols rows world k n \<Longrightarrow> reach cols rows world start m \<Longrightarrow> key_of m = k \<Longrightarrow>
   \<exists>g. reach cols rows world start g \<and> dirty_cells (vacuumed g) = {||} \<and>
       length (path (vacuumed g)) = length (path m) + n"
proof (induction arbitrary: m rule: solves.induct)
  case (solves_goal k)
  then have "dirty_cells (vacuumed m) = {||}" by (auto simp: dirty_vacuumed)
  moreover have "length (path (vacuumed m)) = length (path m) + (if fst k |\<in>| snd k then 1 else 0)"
    using solves_goal by (auto simp: path_vacuumed)
  ultimately show ?case using solves_goal.prems(1) by blast
next
  case (solves_step k q n)
  have ng: "dirty_cells (vacuumed m) \<noteq> {||}" using solves_step by (auto simp: dirty_vacuumed)
  have "(q, dirty_cells (vacuumed m)) \<in> key_of ` set (spec_successors cols rows world (vacuumed m))"
    using solves_step.hyps(2) solves_step.prems(2) by (auto simp: key_of_spec_successors)
  then obtain s where s: "s \<in> set (spec_successors cols rows world (vacuumed m))"
    "key_of s = (q, dirty_cells (vacuumed m))" by auto
  have rs: "reach cols rows world start s" using reach_step[OF solves_step.prems(1) ng s(1)] .
  have ks: "key_of s = (q, snd k |-| {|fst k|})"
    using s(2) solves_step.prems(2) by (auto simp: dirty_vacuumed)
  obtain g where g: "reach cols rows world start g" "dirty_cells (vacuumed g) = {||}"
    "length (path (vacuumed g)) = length (path s) + n"
    using solves_step.IH[OF rs ks] by blast
  have "length (path s) = length (path m) + (if fst k |\<in>| snd k then 1 else 0) + 1"
    using length_path_spec_successors[OF s(1)] solves_step.prems(2) by (auto simp: path_vacuumed)
  then show ?case using g by auto
qed

lemma cleans_reach:
  assumes "cleans cols rows world start acts"
  shows "\<exists>g. reach cols rows world start g \<and> dirty_cells (vacuumed g) = {||} \<and>
       length (path (vacuumed g)) \<le> length (path start) + length acts"
proof -
  obtain p' where r: "replay cols rows world (position start, dirty_cells start) acts = Some (p', {||})"
    using assms by (auto simp: cleans_def split: option.splits)
  obtain n where n: "solves cols rows world (position start, dirty_cells start) n" "n \<le> length acts"
    using replay_solves[OF r, of "dirty_cells start"] by auto
  obtain g where "reach cols rows world start g" "dirty_cells (vacuumed g) = {||}"
    "length (path (vacuumed g)) = length (path start) + n"
    using solves_reach[OF n(1) reach_start, of start] by (auto simp: key_of_def)
  then show ?thesis using n(2) by auto
qed

lemma length_path_vacuumed: "length (path (vacuumed n)) + 1 = length (path n) + leave n"
  by (simp add: path_vacuumed leave_def)

lemma leave_key: "key_of a = key_of b \<Longrightarrow> leave a = leave b"
  by (simp add: key_of_def leave_def)

lemma vacuumed_dirty_key: "key_of a = key_of b \<Longrightarrow> dirty_cells (vacuumed a) = dirty_cells (vacuumed b)"
  by (simp add: key_of_def dirty_vacuumed)

lemma frontier_cut:
  assumes "opt_inv cols rows world start pq E" and "reach cols rows world start m"
  shows "key_of m \<in> insert (key_of start) E \<or>
     (\<exists>e \<in> set pq. fst e + leave (snd e) \<le> length (path m) \<and>
        (length (path m) = fst e + leave (snd e) \<longrightarrow> dirty_cells m = dirty_cells (vacuumed (snd e))))"
  using assms(2)
proof (induction rule: reach.induct)
  case reach_start
  then show ?case by simp
next
  case (reach_step n s)
  have len: "length (path s) = length (path n) + leave n"
    using length_path_spec_successors[OF reach_step.hyps(3)] length_path_vacuumed[of n] by simp
  have ds: "dirty_cells s = dirty_cells (vacuumed n)"
    using dirty_spec_successors[OF reach_step.hyps(3)] .
  from reach_step.IH show ?case
  proof
    assume kn: "key_of n \<in> insert (key_of start) E"
    then consider
      (front) e where "e \<in> set pq" "key_of (snd e) = key_of n"
        "\<forall>m. reach cols rows world start m \<and> key_of m = key_of n \<longrightarrow> fst e \<le> length (path m)"
      | (closed) "closed cols rows world E (key_of n)"
      using assms(1) unfolding opt_inv_def by blast
    then show ?thesis
    proof cases
      case front
      have "fst e \<le> length (path n)" using front(3) reach_step.hyps(1) by blast
      then have "fst e + leave (snd e) \<le> length (path s)"
        using len leave_key[OF front(2)] by simp
      moreover have "dirty_cells s = dirty_cells (vacuumed (snd e))"
        using ds vacuumed_dirty_key[OF front(2)] by simp
      ultimately show ?thesis using front(1) by blast
    next
      case closed
      have "key_of s \<in> (\<lambda>q. (q, dirty_cells (vacuumed n))) ` set (nbrs cols rows world (position n))"
        using reach_step.hyps(3) key_of_spec_successors[of cols rows world "vacuumed n"] by auto
      then have "key_of s \<in> E" using closed by (auto simp: closed_def dirty_vacuumed)
      then show ?thesis by simp
    qed
  next
    assume "\<exists>e \<in> set pq. fst e + leave (snd e) \<le> length (path n) \<and>
        (length (path n) = fst e + leave (snd e) \<longrightarrow> dirty_cells n = dirty_cells (vacuumed (snd e)))"
    then obtain e where e: "e \<in> set pq" "fst e + leave (snd e) \<le> length (path n)" by blast
    have "0 < leave n" by (simp add: leave_def)
    then have "fst e + leave (snd e) < length (path s)" using e(2) len by simp
    then show ?thesis using e(1) by force
  qed
qed

lemma entry_le_cases:
  "entry_le a b \<Longrightarrow>
   fst a < fst b \<or> (fst a = fst b \<and> fcard (dirty_cells (snd a)) \<le> fcard (dirty_cells (snd b)))"
  by (auto simp: entry_le_def entry_lt_def lt_def)

lemma opt_inv_solved:
  assumes opt: "opt_inv cols rows world start pq E"
    and min: "\<forall>e \<in> set pq. entry_le item e" and item: "item \<in> set pq"
    and goal: "dirty_cells (vacuumed (snd item)) = {||}"
    and m: "reach cols rows world start m" "dirty_cells (vacuumed m) = {||}"
  shows "length (path (vacuumed (snd item))) \<le> length (path (vacuumed m))"
proof -
  let ?c = "snd item"
  have fi: "fst item = length (path ?c)" using opt item by (simp add: opt_inv_def)
  have lc: "length (path (vacuumed ?c)) + 1 = fst item + leave ?c"
    using length_path_vacuumed[of ?c] fi by simp
  have lm: "length (path (vacuumed m)) + 1 = length (path m) + leave m"
    by (rule length_path_vacuumed)
  have l12: "\<And>n. leave n = 1 \<or> leave n = 2" by (simp add: leave_def)
  from frontier_cut[OF opt m(1)] show ?thesis
  proof
    assume "\<exists>e \<in> set pq. fst e + leave (snd e) \<le> length (path m) \<and>
        (length (path m) = fst e + leave (snd e) \<longrightarrow> dirty_cells m = dirty_cells (vacuumed (snd e)))"
    then obtain e where e: "e \<in> set pq" "fst e + leave (snd e) \<le> length (path m)" by blast
    have "fst item \<le> fst e" using entry_le_cases[of item e] min e(1) by auto
    then show ?thesis using e(2) lc lm l12[of ?c] l12[of m] l12[of "snd e"] by arith
  next
    assume "key_of m \<in> insert (key_of start) E"
    moreover have "\<not> closed cols rows world E (key_of m)"
      using m(2) by (simp add: closed_def dirty_vacuumed)
    ultimately obtain e where e: "e \<in> set pq" "key_of (snd e) = key_of m"
      "\<forall>m'. reach cols rows world start m' \<and> key_of m' = key_of m \<longrightarrow> fst e \<le> length (path m')"
      using opt unfolding opt_inv_def by blast
    have le: "fst e \<le> length (path m)" using e(3) m(1) by blast
    consider "fst item < fst e"
      | "fst item = fst e" "fcard (dirty_cells ?c) \<le> fcard (dirty_cells (snd e))"
      using entry_le_cases[of item e] min e(1) by auto
    then show ?thesis
    proof cases
      case 1
      then show ?thesis using le lc lm l12[of ?c] l12[of m] by arith
    next
      case 2
      show ?thesis
      proof (cases "position ?c |\<in>| dirty_cells ?c")
        case False
        then have "leave ?c = 1" by (simp add: leave_def)
        then show ?thesis using 2(1) le lc lm l12[of m] by arith
      next
        case True
        then have "0 < fcard (dirty_cells ?c)" by (metis fcard_0_eq fempty_iff gr0I)
        moreover have "dirty_cells (snd e) = dirty_cells m" using e(2) by (simp add: key_of_def)
        ultimately have "0 < fcard (dirty_cells m)" using 2(2) by simp
        then have "dirty_cells m \<noteq> {||}" by (auto simp: fcard_fempty)
        then have "position m |\<in>| dirty_cells m" using m(2) by (auto simp: dirty_vacuumed)
        then have "leave m = 2" by (simp add: leave_def)
        then show ?thesis using 2(1) le lc lm l12[of ?c] by arith
      qed
    qed
  qed
qed

lemma opt_inv_step:
  assumes opt: "opt_inv cols rows world start pq E"
    and min: "\<forall>e \<in> set pq. entry_le item e"
    and ms: "mset pq = add_mset item (mset rest)"
    and r0: "reach cols rows world start (snd item)"
    and ng: "dirty_cells (vacuumed (snd item)) \<noteq> {||}"
    and new: "new = filter (\<lambda>s. key_of s \<notin> E) (spec_successors cols rows world (vacuumed (snd item)))"
    and pq': "mset pq' = mset rest + mset (map entry_of new)"
  shows "opt_inv cols rows world start pq' (E \<union> key_of ` set new)"
proof -
  let ?c = "snd item"
  let ?K = "key_of ` set new"
  have item: "item \<in> set pq" using ms by (metis set_mset_mset union_single_eq_member)
  have set_pq: "set pq = insert item (set rest)" using ms by (metis set_mset_add_mset_insert set_mset_mset)
  have set_pq': "set pq' = set rest \<union> entry_of ` set new"
    using pq' by (metis set_map set_mset_mset set_mset_union)
  have fi: "fst item = length (path ?c)" using opt item by (simp add: opt_inv_def)
  have l12: "\<And>n. leave n = 1 \<or> leave n = 2" by (simp add: leave_def)
  note nk = new_keys[OF new]
  have cl0: "closed cols rows world (E \<union> ?K) (key_of ?c)"
    unfolding closed_def nk(3)
    using ng key_of_spec_successors[of cols rows world "vacuumed ?c"]
    by (auto simp: dirty_vacuumed)
  show ?thesis
    unfolding opt_inv_def
  proof (intro conjI ballI)
    fix e assume "e \<in> set pq'"
    then show "fst e = length (path (snd e))"
      using opt set_pq set_pq' by (auto simp: opt_inv_def entry_of_def)
  next
    fix k assume k: "k \<in> insert (key_of start) (E \<union> ?K)"
    show "(\<exists>e \<in> set pq'. key_of (snd e) = k \<and>
            (\<forall>m. reach cols rows world start m \<and> key_of m = k \<longrightarrow> fst e \<le> length (path m))) \<or>
          closed cols rows world (E \<union> ?K) k"
    proof (cases "k \<in> insert (key_of start) E")
      case True
      then consider
        (front) e where "e \<in> set pq" "key_of (snd e) = k"
          "\<forall>m. reach cols rows world start m \<and> key_of m = k \<longrightarrow> fst e \<le> length (path m)"
        | (closed) "closed cols rows world E k"
        using opt unfolding opt_inv_def by blast
      then show ?thesis
      proof cases
        case front
        show ?thesis
        proof (cases "e = item")
          case True
          then show ?thesis using cl0 front(2) by auto
        next
          case False
          then have "e \<in> set pq'" using front(1) set_pq set_pq' by auto
          then show ?thesis using front(2,3) by blast
        qed
      next
        case closed
        then show ?thesis using closed_mono[of cols rows world E k "E \<union> ?K"] by auto
      qed
    next
      case False
      then obtain s where s: "s \<in> set new" "k = key_of s" using k by auto
      have ss: "s \<in> set (spec_successors cols rows world (vacuumed ?c))" using s(1) new by simp
      have ls: "length (path s) = fst item + leave ?c"
        using length_path_spec_successors[OF ss] length_path_vacuumed[of ?c] fi by simp
      have ds: "dirty_cells s = dirty_cells (vacuumed ?c)" using dirty_spec_successors[OF ss] .
      have "\<And>m. reach cols rows world start m \<Longrightarrow> key_of m = k \<Longrightarrow> length (path s) \<le> length (path m)"
      proof -
        fix m assume m: "reach cols rows world start m" "key_of m = k"
        then have "key_of m \<notin> insert (key_of start) E" using False by simp
        then obtain e where e: "e \<in> set pq" "fst e + leave (snd e) \<le> length (path m)"
          "length (path m) = fst e + leave (snd e) \<longrightarrow> dirty_cells m = dirty_cells (vacuumed (snd e))"
          using frontier_cut[OF opt m(1)] by blast
        consider "fst item < fst e"
          | "fst item = fst e" "fcard (dirty_cells ?c) \<le> fcard (dirty_cells (snd e))"
          using entry_le_cases[of item e] min e(1) by auto
        then show "length (path s) \<le> length (path m)"
        proof cases
          case 1
          then show ?thesis using ls e(2) l12[of ?c] l12[of "snd e"] by arith
        next
          case 2
          show ?thesis
          proof (cases "leave ?c \<le> leave (snd e) \<or> length (path m) \<noteq> fst e + leave (snd e)")
            case True
            then show ?thesis using ls e(2) 2(1) l12[of ?c] l12[of "snd e"] by arith
          next
            case False
            then have lv: "leave ?c = 2" "leave (snd e) = 1" and eq: "dirty_cells m = dirty_cells (vacuumed (snd e))"
              using l12[of ?c] l12[of "snd e"] e(3) by auto
            have in_c: "position ?c |\<in>| dirty_cells ?c" using lv(1) by (simp add: leave_def split: if_splits)
            have "position (snd e) |\<notin>| dirty_cells (snd e)" using lv(2) by (simp add: leave_def split: if_splits)
            then have "dirty_cells (vacuumed (snd e)) = dirty_cells (snd e)" by (simp add: vacuumed_def)
            then have "dirty_cells (snd e) = dirty_cells ?c |-| {|position ?c|}"
              using eq m(2) s(2) ds by (simp add: key_of_def dirty_vacuumed)
            then have "fcard (dirty_cells (snd e)) < fcard (dirty_cells ?c)"
              using fcard_fminus1_less[OF in_c] by simp
            then show ?thesis using 2(2) by simp
          qed
        qed
      qed
      then have "key_of (snd (entry_of s)) = k \<and>
          (\<forall>m. reach cols rows world start m \<and> key_of m = k \<longrightarrow> fst (entry_of s) \<le> length (path m))"
        using s(2) by (simp add: entry_of_def)
      moreover have "entry_of s \<in> set pq'" using s(1) set_pq' by simp
      ultimately show ?thesis by blast
    qed
  qed
qed

lemma snd_entry_of: "image_mset snd (image_mset entry_of M) = M"
  by (simp add: multiset.map_comp comp_def entry_of_def)

lemma raises_optimal: "optimal cols rows world start (Inl e)"
  by (simp add: optimal_def)

lemma ucs_loop_post:
  assumes "base_inv cols rows world start (image_mset snd (mset pq)) explored exp gen"
    and "heap_ok pq" and "ob \<longrightarrow> opt_inv cols rows world start pq explored"
  shows "\<exists>res. ucs_loop cols rows world pq explored exp gen = Some res \<and>
         search_post cols rows world start res \<and> (ob \<longrightarrow> optimal cols rows world start res)"
  using assms
proof (induction "search_measure cols rows start (length pq) explored"
    arbitrary: pq explored exp gen rule: less_induct)
  case less
  show ?case
  proof (cases "pq = []")
    case True
    then show ?thesis
      using base_inv_empty[of cols rows world start explored exp gen] less.prems(1)
      by (subst ucs_loop.simps) (simp add: optimal_def)
  next
    case False
    obtain item rest where pop: "heappop pq = (item, rest)" by (cases "heappop pq")
    note hp = heappop_props[OF less.prems(2) False pop]
    define cur0 where "cur0 = snd item"
    define new where "new = filter (\<lambda>s. key_of s \<notin> explored)
        (spec_successors cols rows world (vacuumed cur0))"
    define pq' where "pq' = foldl heappush rest (map entry_of new)"
    have item: "item \<in> set pq" using hp(2) by (metis set_mset_mset union_single_eq_member)
    have ms: "image_mset snd (mset pq) = add_mset cur0 (image_mset snd (mset rest))"
      using hp(2) by (simp add: cur0_def)
    have inv: "base_inv cols rows world start (add_mset cur0 (image_mset snd (mset rest))) explored exp gen"
      using less.prems(1) ms by simp
    have r0: "reach cols rows world start cur0" using inv by (simp add: base_inv_def)
    show ?thesis
    proof (cases "dirty_cells (vacuumed cur0) = {||}")
      case True
      have "ob \<longrightarrow> optimal cols rows world start (Inr (Solved (path (vacuumed cur0)) gen (exp + 1)))"
        using opt_inv_solved[OF _ hp(3) item, where cols=cols and rows=rows and world=world and start=start and E=explored] True less.prems(3)
        by (auto simp: optimal_def cur0_def)
      then show ?thesis
        using base_inv_solved[OF inv True] False True pop
        by (subst ucs_loop.simps) (simp add: ucs_round_eq cur0_def)
    next
      case ng: False
      show ?thesis
      proof (cases "\<exists>(a, d) \<in> set directions. raises cols rows world (target (position cur0) d)")
        case True
        then show ?thesis
          using raises_post[OF True, of start] False ng pop
          by (subst ucs_loop.simps) (simp add: ucs_round_eq cur0_def raises_optimal)
      next
        case nr: False
        note st = base_inv_step[OF inv ng new_def]
        have mpq': "mset pq' = mset rest + mset (map entry_of new)"
          by (simp add: pq'_def mset_foldl_heappush)
        have abs': "image_mset snd (mset pq') = image_mset snd (mset rest) + mset new"
          by (simp add: mpq' snd_entry_of)
        have len: "length pq' = size (image_mset snd (mset rest) + mset new)"
          "length pq = size (add_mset cur0 (image_mset snd (mset rest)))"
          using arg_cong[OF abs', of size] arg_cong[OF ms, of size] by simp_all
        have m: "search_measure cols rows start (length pq') (explored \<union> key_of ` set new)
            < search_measure cols rows start (length pq) explored"
          using st(2) unfolding len .
        have i: "base_inv cols rows world start (image_mset snd (mset pq')) (explored \<union> key_of ` set new)
            (exp + 1) (gen + length new)"
          using st(1) abs' by simp
        have h: "heap_ok pq'" unfolding pq'_def using hp(1) by (rule heap_ok_foldl_heappush)
        have o: "ob \<longrightarrow> opt_inv cols rows world start pq' (explored \<union> key_of ` set new)"
          using opt_inv_step[OF _ hp(3) hp(2) _ _ _ mpq', where cols=cols and rows=rows and world=world and start=start and E=explored]
            less.prems(3) r0 ng new_def by (simp add: cur0_def)
        have "ucs_loop cols rows world pq explored exp gen =
            ucs_loop cols rows world pq' (explored \<union> key_of ` set new) (exp + 1) (gen + length new)"
          using False ng nr pop
          by (subst ucs_loop.simps)
             (simp add: ucs_round_eq cur0_def[symmetric] new_def[symmetric] pq'_def[symmetric] Let_def)
        then show ?thesis using less.hyps[OF m i h o] by simp
      qed
    qed
  qed
qed

lemma heappush_empty: "heappush [] x = [x]"
  by (simp add: heappush_def siftdown_def siftdown_loop.simps)

lemma ucs_post:
  "\<exists>res. ucs cols rows world start = Some res \<and> search_post cols rows world start res \<and>
     (path start = [] \<longrightarrow> optimal cols rows world start res)"
proof -
  have b: "base_inv cols rows world start (image_mset snd (mset [(0, start)])) {} 0 0"
    using base_inv_init[of cols rows world start] by simp
  have h: "heap_ok [(0, start)]" by (simp add: heap_ok_def)
  have o: "path start = [] \<longrightarrow> opt_inv cols rows world start [(0, start)] {}"
    by (simp add: opt_inv_def)
  show ?thesis
    unfolding ucs_def heappush_empty using ucs_loop_post[OF b h o] .
qed

lemma dfs_post:
  "\<exists>res. dfs cols rows world start = Some res \<and> search_post cols rows world start res"
  unfolding dfs_def using dfs_loop_post[of cols rows world start "[start]" "{}" 0 0] base_inv_init[of cols rows world start]
  by simp

section \<open>Results of a search and replays\<close>

lemma replay_walk:
  "replay cols rows world (p, D) acts = Some k \<Longrightarrow>
   \<forall>q \<in> set (walk p acts). free cols rows world q"
proof (induction acts arbitrary: p D)
  case Nil
  then show ?case by simp
next
  case (Cons a acts)
  show ?case
  proof (cases "a = ''V''")
    case True
    then have "map_of directions a = None" by (simp add: directions_def)
    then show ?thesis using Cons True by simp
  next
    case False
    then show ?thesis using Cons by (auto split: option.splits if_splits)
  qed
qed

lemma goal_cleans:
  assumes "reach cols rows world start g" and "dirty_cells (vacuumed g) = {||}"
  shows "\<exists>acts. path (vacuumed g) = path start @ acts \<and> cleans cols rows world start acts"
proof -
  obtain acts where acts: "path g = path start @ acts"
    "replay cols rows world (key_of start) acts = Some (key_of g)"
    using reach_replay[OF assms(1)] by blast
  let ?v = "if position g |\<in>| dirty_cells g then [''V''] else []"
  have v: "replay cols rows world (key_of g) ?v = Some (key_of (vacuumed g))"
    by (auto simp: key_of_def vacuumed_def)
  have "replay cols rows world (key_of start) (acts @ ?v) = Some (key_of (vacuumed g))"
    using acts(2) v by (simp add: replay_append)
  then have "cleans cols rows world start (acts @ ?v)"
    using assms(2) by (simp add: cleans_def key_of_def)
  moreover have "path (vacuumed g) = path start @ (acts @ ?v)"
    using acts(1) by (simp add: path_vacuumed)
  ultimately show ?thesis by blast
qed

lemma solved_cleans:
  assumes "search_post cols rows world start (Inr (Solved acts gen exp))" and "path start = []"
  shows "cleans cols rows world start acts"
proof -
  obtain g where "reach cols rows world start g" "dirty_cells (vacuumed g) = {||}"
    "acts = path (vacuumed g)"
    using assms(1) by (auto simp: search_post_def)
  then show ?thesis using goal_cleans[of cols rows world start g] assms(2) by auto
qed

lemma exhausted_unsolvable:
  assumes "search_post cols rows world start (Inr (Exhausted gen exp))"
  shows "\<not> cleans cols rows world start acts"
proof
  assume "cleans cols rows world start acts"
  then obtain g where "reach cols rows world start g" "dirty_cells (vacuumed g) = {||}"
    using cleans_reach by blast
  then show False using assms by (auto simp: search_post_def)
qed

lemma wf_world_no_error:
  "wf_world cols rows world \<Longrightarrow> \<not> search_post cols rows world start (Inl e)"
  using wf_world_no_raise by (simp add: search_post_def)

lemma solvable_solved:
  assumes "wf_world cols rows world" and "cleans cols rows world start acts0"
    and "search_post cols rows world start res"
  shows "\<exists>sol gen exp. res = Inr (Solved sol gen exp)"
proof (cases res)
  case (Inl e)
  then show ?thesis using wf_world_no_error[OF assms(1)] assms(3) by blast
next
  case (Inr out)
  then show ?thesis using exhausted_unsolvable[of cols rows world start _ _ acts0] assms(2,3)
    by (cases out) auto
qed

lemma unsolvable_exhausted:
  assumes "wf_world cols rows world" and "\<forall>acts. \<not> cleans cols rows world start acts"
    and "search_post cols rows world start res"
  shows "\<exists>gen exp. res = Inr (Exhausted gen exp) \<and> exp = gen + 1"
proof (cases res)
  case (Inl e)
  then show ?thesis using wf_world_no_error[OF assms(1)] assms(3) by blast
next
  case (Inr out)
  show ?thesis
  proof (cases out)
    case (Solved sol gen exp)
    then obtain g where "reach cols rows world start g" "dirty_cells (vacuumed g) = {||}"
      using assms(3) Inr by (auto simp: search_post_def)
    then show ?thesis using goal_cleans[of cols rows world start g] assms(2) by blast
  next
    case (Exhausted gen exp)
    then show ?thesis using assms(3) Inr by (simp add: search_post_def)
  qed
qed

lemma enter_from_nbr:
  "map_of directions a = Some dir \<Longrightarrow> free cols rows world p \<Longrightarrow>
   p \<in> set (nbrs cols rows world (target p dir))"
  by (auto simp: directions_def nbrs_def target_def split: if_splits)

lemma enclosed_stays_dirty:
  assumes "nbrs cols rows world d = []"
  shows "replay cols rows world (p, D) acts = Some k \<Longrightarrow> free cols rows world p \<Longrightarrow>
     p \<noteq> d \<Longrightarrow> d |\<in>| D \<Longrightarrow> d |\<in>| snd k"
proof (induction acts arbitrary: p D)
  case Nil
  then show ?case by auto
next
  case (Cons a acts)
  show ?case
  proof (cases "a = ''V''")
    case True
    then have "replay cols rows world (p, D |-| {|p|}) acts = Some k" using Cons.prems(1) by simp
    moreover have "d |\<in>| D |-| {|p|}" using Cons.prems(3,4) by auto
    ultimately show ?thesis using Cons.IH Cons.prems(2,3) by blast
  next
    case False
    then obtain dir where dir: "map_of directions a = Some dir" "free cols rows world (target p dir)"
      and r: "replay cols rows world (target p dir, D) acts = Some k"
      using Cons.prems(1) by (auto split: option.splits if_splits)
    have "target p dir \<noteq> d"
      using enter_from_nbr[OF dir(1) Cons.prems(2)] assms by auto
    then show ?thesis using Cons.IH[OF r dir(2) _ Cons.prems(4)] by blast
  qed
qed

lemma enclosed_unsolvable:
  assumes "enclosed cols rows world start"
  shows "\<not> cleans cols rows world start acts"
proof
  assume c: "cleans cols rows world start acts"
  obtain d where d: "d |\<in>| dirty_cells start" "d \<noteq> position start" "nbrs cols rows world d = []"
    and f: "free cols rows world (position start)"
    using assms by (auto simp: enclosed_def)
  obtain k where k: "replay cols rows world (position start, dirty_cells start) acts = Some k"
    "snd k = {||}"
    using c by (auto simp: cleans_def split: option.splits)
  have "d |\<in>| snd k" using enclosed_stays_dirty[OF d(3) k(1) f _ d(1)] d(2) by auto
  then show False using k(2) by simp
qed

lemma search_post_counts:
  "search_post cols rows world start res \<Longrightarrow>
   counts_within (nat rows * nat cols * 2 ^ fcard (dirty_cells start)) res"
proof (cases res)
  case (Inl e)
  then show ?thesis by simp
next
  case (Inr out)
  assume "search_post cols rows world start res"
  then show ?thesis using Inr by (cases out) (auto simp: search_post_def card_universe)
qed

section \<open>The claims\<close>

text \<open>
  Claim C1.  On a rectangular grid and from a start state with an empty path, whenever some
  action sequence cleans every dirty cell, \<open>ucs\<close> returns an action sequence that cleans
  every dirty cell and is no longer than any action sequence that does.
\<close>

theorem ucs_shortest_solution:
  assumes "wf_world cols rows world" and "path start = []"
    and "cleans cols rows world start acts0"
  shows "\<exists>sol gen exp. ucs cols rows world start = Some (Inr (Solved sol gen exp)) \<and>
           cleans cols rows world start sol \<and>
           (\<forall>acts. cleans cols rows world start acts \<longrightarrow> length sol \<le> length acts)"
proof -
  obtain res where res: "ucs cols rows world start = Some res"
    "search_post cols rows world start res" "optimal cols rows world start res"
    using ucs_post[of cols rows world start] assms(2) by blast
  obtain sol gen exp where s: "res = Inr (Solved sol gen exp)"
    using solvable_solved[OF assms(1,3) res(2)] by blast
  have c: "cleans cols rows world start sol" using solved_cleans[OF res(2)[unfolded s] assms(2)] .
  have "\<And>acts. cleans cols rows world start acts \<Longrightarrow> length sol \<le> length acts"
  proof -
    fix acts assume "cleans cols rows world start acts"
    then obtain g where g: "reach cols rows world start g" "dirty_cells (vacuumed g) = {||}"
      "length (path (vacuumed g)) \<le> length (path start) + length acts"
      using cleans_reach by blast
    have "length sol \<le> length (path (vacuumed g))"
      using res(3) g(1,2) unfolding s optimal_def by simp
    then show "length sol \<le> length acts" using g(3) assms(2) by simp
  qed
  then show ?thesis using res(1) s c by blast
qed

theorem ucs_shortest_solution_witness:
  "wf_world 3 3 [''___'', ''___'', ''___''] \<and>
   cleans 3 3 [''___'', ''___'', ''___'']
     \<lparr>position = (0, 0), dirty_cells = {|(2, 0)|}, path = []\<rparr>
     [''E'', ''E'', ''S'', ''S'', ''W'', ''W'', ''V''] \<and>
   (\<exists>sol gen exp.
      ucs 3 3 [''___'', ''___'', ''___''] \<lparr>position = (0, 0), dirty_cells = {|(2, 0)|}, path = []\<rparr>
        = Some (Inr (Solved sol gen exp)) \<and>
      cleans 3 3 [''___'', ''___'', ''___'']
        \<lparr>position = (0, 0), dirty_cells = {|(2, 0)|}, path = []\<rparr> sol \<and>
      length sol \<le> 7)"
proof -
  let ?w = "[''___'', ''___'', ''___'']"
  let ?s = "\<lparr>position = (0, 0), dirty_cells = {|(2, 0)|}, path = []\<rparr>"
  let ?a = "[''E'', ''E'', ''S'', ''S'', ''W'', ''W'', ''V'']"
  have wf: "wf_world 3 3 ?w" by (simp add: wf_world_def)
  have p: "path ?s = []" by simp
  have c: "cleans 3 3 ?w ?s ?a" by code_simp
  obtain sol gen exp where s: "ucs 3 3 ?w ?s = Some (Inr (Solved sol gen exp))"
    "cleans 3 3 ?w ?s sol" "\<forall>acts. cleans 3 3 ?w ?s acts \<longrightarrow> length sol \<le> length acts"
    using ucs_shortest_solution[OF wf p c] by blast
  have "length sol \<le> 7" using s(3) c by fastforce
  then show ?thesis using wf c s(1,2) by blast
qed

text \<open>
  Claim C2 (no two popped nodes have the same key, because \<open>explored\<close> holds every key
  that was pushed).  The code does not keep it: the start state is pushed without its key
  being put into \<open>explored\<close>, so its key can be generated once more and the start state
  is then expanded a second time.  On the world \<open>@_#*\<close> (one row, the dirty cell behind a
  wall) both searches pop nodes with the keys \<open>((0,0),{(0,3)})\<close>, \<open>((0,1),{(0,3)})\<close>,
  \<open>((0,0),{(0,3)})\<close> and report 2 generated and 3 expanded nodes, although only two keys
  can be reached.
\<close>

theorem start_expanded_twice:
  "read_input 4 1 [''@_#*''] = Inr (4, 1, [''__#*''], Some (0, 0), {|(0, 3)|}) \<and>
   ucs 4 1 [''__#*''] \<lparr>position = (0, 0), dirty_cells = {|(0, 3)|}, path = []\<rparr>
     = Some (Inr (Exhausted 2 3)) \<and>
   ucs_popped 3 4 1 [''__#*'']
       (heappush [] (0, \<lparr>position = (0, 0), dirty_cells = {|(0, 3)|}, path = []\<rparr>)) {} 0 0
     = [((0, 0), {|(0, 3)|}), ((0, 1), {|(0, 3)|}), ((0, 0), {|(0, 3)|})] \<and>
   dfs 4 1 [''__#*''] \<lparr>position = (0, 0), dirty_cells = {|(0, 3)|}, path = []\<rparr>
     = Some (Inr (Exhausted 2 3)) \<and>
   dfs_popped 3 4 1 [''__#*'']
       [\<lparr>position = (0, 0), dirty_cells = {|(0, 3)|}, path = []\<rparr>] {} 0 0
     = [((0, 0), {|(0, 3)|}), ((0, 1), {|(0, 3)|}), ((0, 0), {|(0, 3)|})]"
  by (intro conjI; code_simp)

text \<open>
  Claim C3.  Whenever \<open>ucs\<close> or \<open>dfs\<close>, started with an empty path, returns a solution,
  the replay of the returned actions from the initial position succeeds and leaves no dirty
  cell, and every cell that a move of the sequence enters is in bounds and not a wall.
\<close>

theorem returned_actions_clean:
  assumes "path start = []"
    and "ucs cols rows world start = Some (Inr (Solved acts gen exp)) \<or>
         dfs cols rows world start = Some (Inr (Solved acts gen exp))"
  shows "cleans cols rows world start acts \<and>
         (\<forall>q \<in> set (walk (position start) acts). in_bounds cols rows q \<and> passable world q)"
proof -
  have "search_post cols rows world start (Inr (Solved acts gen exp))"
    using assms(2) ucs_post[of cols rows world start] dfs_post[of cols rows world start] by auto
  then have c: "cleans cols rows world start acts" using solved_cleans assms(1) by blast
  then obtain k where "replay cols rows world (position start, dirty_cells start) acts = Some k"
    by (auto simp: cleans_def split: option.splits)
  then have "\<forall>q \<in> set (walk (position start) acts). free cols rows world q"
    by (rule replay_walk)
  then show ?thesis using c by (simp add: free_def)
qed

theorem returned_actions_clean_witness:
  "dfs 3 3 [''___'', ''___'', ''___''] \<lparr>position = (0, 0), dirty_cells = {|(2, 0)|}, path = []\<rparr>
     = Some (Inr (Solved [''E'', ''E'', ''S'', ''S'', ''W'', ''W'', ''V''] 9 8)) \<and>
   cleans 3 3 [''___'', ''___'', ''___''] \<lparr>position = (0, 0), dirty_cells = {|(2, 0)|}, path = []\<rparr>
     [''E'', ''E'', ''S'', ''S'', ''W'', ''W'', ''V''] \<and>
   walk (0, 0) [''E'', ''E'', ''S'', ''S'', ''W'', ''W'', ''V'']
     = [(0, 1), (0, 2), (1, 2), (2, 2), (2, 1), (2, 0)]"
proof -
  let ?w = "[''___'', ''___'', ''___'']"
  let ?s = "\<lparr>position = (0, 0), dirty_cells = {|(2, 0)|}, path = []\<rparr>"
  let ?a = "[''E'', ''E'', ''S'', ''S'', ''W'', ''W'', ''V'']"
  have p: "path ?s = []" by simp
  have d: "dfs 3 3 ?w ?s = Some (Inr (Solved ?a 9 8))" by code_simp
  have w: "walk (0, 0) ?a = [(0, 1), (0, 2), (1, 2), (2, 2), (2, 1), (2, 0)]" by code_simp
  have "cleans 3 3 ?w ?s ?a"
    using returned_actions_clean[OF p disjI2[OF d]] by blast
  then show ?thesis using d w by blast
qed

text \<open>
  Claim C4.  When the popped node stands on a dirty cell, the rest of the round (goal test
  and successor generation) runs exactly as it would for the node with the same position,
  the dirty cells without that position and the path extended by \<open>V\<close>.  If that was the
  last dirty cell the search ends with this path and the counters the round started with.
  Otherwise, on a rectangular grid, the round pushes the unexplored successors of this
  cleaned node, which carry its dirty cells and its path, leaves \<open>exp\<close> as it is and adds to
  \<open>gen\<close> only the number of nodes pushed: the vacuum action itself is not counted.
\<close>

theorem vacuum_on_arrival:
  assumes "position cur |\<in>| dirty_cells cur"
  shows "(let cleaned = \<lparr>position = position cur,
                         dirty_cells = dirty_cells cur |-| {|position cur|},
                         path = path cur @ [''V'']\<rparr>
          in ucs_expand cols rows world cur pq explored exp gen =
               ucs_expand cols rows world cleaned pq explored exp gen \<and>
             dfs_expand cols rows world cur stack explored exp gen =
               dfs_expand cols rows world cleaned stack explored exp gen \<and>
             (dirty_cells cleaned = {||} \<longrightarrow>
                ucs_expand cols rows world cur pq explored exp gen =
                  Inl (Inr (Solved (path cur @ [''V'']) gen exp)) \<and>
                dfs_expand cols rows world cur stack explored exp gen =
                  Inl (Inr (Solved (path cur @ [''V'']) gen exp))) \<and>
             (\<forall>pq' explored' exp' gen'.
                ucs_expand cols rows world cur pq explored exp gen = Inr (pq', explored', exp', gen') \<longrightarrow>
                exp' = exp \<and> length pq' = length pq + (gen' - gen) \<and> gen \<le> gen') \<and>
             (\<forall>stack' explored' exp' gen'.
                dfs_expand cols rows world cur stack explored exp gen = Inr (stack', explored', exp', gen') \<longrightarrow>
                exp' = exp \<and> length stack' = length stack + (gen' - gen) \<and> gen \<le> gen') \<and>
             (wf_world cols rows world \<longrightarrow> dirty_cells cleaned \<noteq> {||} \<longrightarrow>
                (let new = filter (\<lambda>s. (position s, dirty_cells s) \<notin> explored)
                             (spec_successors cols rows world cleaned)
                 in ucs_expand cols rows world cur pq explored exp gen =
                      Inr (foldl heappush pq (map (\<lambda>s. (length (path s), s)) new),
                           explored \<union> (\<lambda>s. (position s, dirty_cells s)) ` set new,
                           exp, gen + length new) \<and>
                    dfs_expand cols rows world cur stack explored exp gen =
                      Inr (stack @ new,
                           explored \<union> (\<lambda>s. (position s, dirty_cells s)) ` set new,
                           exp, gen + length new) \<and>
                    (\<forall>s \<in> set new. dirty_cells s = dirty_cells cur |-| {|position cur|} \<and>
                       (\<exists>a. path s = path cur @ [''V'', a])))))"
proof -
  let ?cleaned = "\<lparr>position = position cur, dirty_cells = dirty_cells cur |-| {|position cur|},
                   path = path cur @ [''V'']\<rparr>"
  let ?new = "filter (\<lambda>s. (position s, dirty_cells s) \<notin> explored)
                (spec_successors cols rows world ?cleaned)"
  have v: "vacuumed cur = ?cleaned" using assms by (simp add: vacuumed_def)
  have v': "vacuumed ?cleaned = ?cleaned" using vacuumed_idem[of cur] unfolding v .
  have 1: "ucs_expand cols rows world cur pq explored exp gen =
      ucs_expand cols rows world ?cleaned pq explored exp gen"
    unfolding ucs_expand_eq v v' ..
  have 2: "dfs_expand cols rows world cur stack explored exp gen =
      dfs_expand cols rows world ?cleaned stack explored exp gen"
    unfolding dfs_expand_eq v v' ..
  have 3: "dirty_cells ?cleaned = {||} \<longrightarrow>
      ucs_expand cols rows world cur pq explored exp gen = Inl (Inr (Solved (path cur @ [''V'']) gen exp)) \<and>
      dfs_expand cols rows world cur stack explored exp gen = Inl (Inr (Solved (path cur @ [''V'']) gen exp))"
    unfolding ucs_expand_eq dfs_expand_eq v by (simp add: Let_def)
  have 4: "\<forall>pq' explored' exp' gen'.
      ucs_expand cols rows world cur pq explored exp gen = Inr (pq', explored', exp', gen') \<longrightarrow>
      exp' = exp \<and> length pq' = length pq + (gen' - gen) \<and> gen \<le> gen'"
    unfolding ucs_expand_eq by (auto simp: Let_def length_foldl_heappush split: if_splits)
  have 5: "\<forall>stack' explored' exp' gen'.
      dfs_expand cols rows world cur stack explored exp gen = Inr (stack', explored', exp', gen') \<longrightarrow>
      exp' = exp \<and> length stack' = length stack + (gen' - gen) \<and> gen \<le> gen'"
    unfolding dfs_expand_eq by (auto simp: Let_def split: if_splits)
  have k: "key_of = (\<lambda>s. (position s, dirty_cells s))" and e: "entry_of = (\<lambda>s. (length (path s), s))"
    by (auto simp: key_of_def entry_of_def)
  have 6: "wf_world cols rows world \<longrightarrow> dirty_cells ?cleaned \<noteq> {||} \<longrightarrow>
      ucs_expand cols rows world cur pq explored exp gen =
        Inr (foldl heappush pq (map (\<lambda>s. (length (path s), s)) ?new),
             explored \<union> (\<lambda>s. (position s, dirty_cells s)) ` set ?new, exp, gen + length ?new) \<and>
      dfs_expand cols rows world cur stack explored exp gen =
        Inr (stack @ ?new,
             explored \<union> (\<lambda>s. (position s, dirty_cells s)) ` set ?new, exp, gen + length ?new)"
  proof (intro impI)
    assume wf: "wf_world cols rows world" and ne: "dirty_cells ?cleaned \<noteq> {||}"
    have nr: "\<not> (\<exists>(a, d) \<in> set directions. raises cols rows world (target (position ?cleaned) d))"
      using wf_world_no_raise[OF wf] by auto
    show "ucs_expand cols rows world cur pq explored exp gen =
        Inr (foldl heappush pq (map (\<lambda>s. (length (path s), s)) ?new),
             explored \<union> (\<lambda>s. (position s, dirty_cells s)) ` set ?new, exp, gen + length ?new) \<and>
      dfs_expand cols rows world cur stack explored exp gen =
        Inr (stack @ ?new,
             explored \<union> (\<lambda>s. (position s, dirty_cells s)) ` set ?new, exp, gen + length ?new)"
      unfolding ucs_expand_eq dfs_expand_eq v Let_def k e using ne nr by simp
  qed
  have 7: "\<forall>s \<in> set ?new. dirty_cells s = dirty_cells cur |-| {|position cur|} \<and>
      (\<exists>a. path s = path cur @ [''V'', a])"
    by (auto simp: spec_successors_iff)
  show ?thesis unfolding Let_def using 1 2 3 4 5 6 7 by blast
qed

theorem vacuum_on_arrival_witness:
  "ucs_expand 3 1 [''_*_''] \<lparr>position = (0, 1), dirty_cells = {|(0, 1)|}, path = [''W'']\<rparr> [] {} 2 1
     = Inl (Inr (Solved [''W'', ''V''] 1 2)) \<and>
   dfs_expand 3 1 [''_*_''] \<lparr>position = (0, 1), dirty_cells = {|(0, 1)|}, path = [''W'']\<rparr> [] {} 2 1
     = Inl (Inr (Solved [''W'', ''V''] 1 2)) \<and>
   wf_world 3 1 [''_**''] \<and>
   ucs_expand 3 1 [''_**'']
       \<lparr>position = (0, 1), dirty_cells = {|(0, 1), (0, 2)|}, path = [''W'']\<rparr> [] {} 2 1
     = Inr ([(3, \<lparr>position = (0, 2), dirty_cells = {|(0, 2)|}, path = [''W'', ''V'', ''E'']\<rparr>),
             (3, \<lparr>position = (0, 0), dirty_cells = {|(0, 2)|}, path = [''W'', ''V'', ''W'']\<rparr>)],
            {((0, 2), {|(0, 2)|}), ((0, 0), {|(0, 2)|})}, 2, 3) \<and>
   dfs_expand 3 1 [''_**'']
       \<lparr>position = (0, 1), dirty_cells = {|(0, 1), (0, 2)|}, path = [''W'']\<rparr> [] {} 2 1
     = Inr ([\<lparr>position = (0, 2), dirty_cells = {|(0, 2)|}, path = [''W'', ''V'', ''E'']\<rparr>,
             \<lparr>position = (0, 0), dirty_cells = {|(0, 2)|}, path = [''W'', ''V'', ''W'']\<rparr>],
            {((0, 2), {|(0, 2)|}), ((0, 0), {|(0, 2)|})}, 2, 3)"
proof -
  let ?cur = "\<lparr>position = (0, 1), dirty_cells = {|(0, 1)|}, path = [''W'']\<rparr>"
  have m: "position ?cur |\<in>| dirty_cells ?cur" by simp
  note t = vacuum_on_arrival[OF m, of 3 1 "[''_*_'']" "[]" "{}" 2 1 "[]", unfolded Let_def]
  have c: "dirty_cells \<lparr>position = position ?cur, dirty_cells = dirty_cells ?cur |-| {|position ?cur|},
      path = path ?cur @ [''V'']\<rparr> = {||}" by simp
  have goal_case: "ucs_expand 3 1 [''_*_''] ?cur [] {} 2 1 = Inl (Inr (Solved [''W'', ''V''] 1 2)) \<and>
      dfs_expand 3 1 [''_*_''] ?cur [] {} 2 1 = Inl (Inr (Solved [''W'', ''V''] 1 2))"
    using t[THEN conjunct2, THEN conjunct2, THEN conjunct1, rule_format, OF c] by simp
  let ?w = "[''_**'']"
  let ?two = "\<lparr>position = (0, 1), dirty_cells = {|(0, 1), (0, 2)|}, path = [''W'']\<rparr>"
  let ?cl = "\<lparr>position = position ?two, dirty_cells = dirty_cells ?two |-| {|position ?two|},
      path = path ?two @ [''V'']\<rparr>"
  let ?e = "\<lparr>position = (0, 2), dirty_cells = {|(0, 2)|}, path = [''W'', ''V'', ''E'']\<rparr>"
  let ?o = "\<lparr>position = (0, 0), dirty_cells = {|(0, 2)|}, path = [''W'', ''V'', ''W'']\<rparr>"
  have m2: "position ?two |\<in>| dirty_cells ?two" by simp
  have wf: "wf_world 3 1 ?w" by (simp add: wf_world_def)
  have d: "dirty_cells ?cl = {|(0, 2)|}" by auto
  then have ne: "dirty_cells ?cl \<noteq> {||}" by simp
  have cl: "?cl = \<lparr>position = (0, 1), dirty_cells = {|(0, 2)|}, path = [''W'', ''V'']\<rparr>"
    using d by simp
  have s: "spec_successors 3 1 ?w ?cl = [?e, ?o]"
    unfolding cl by (simp add: spec_successors_def in_bounds_def passable_def world_cell_def)
  have h: "heappush (heappush [] (Suc (Suc (Suc 0)), ?e)) (Suc (Suc (Suc 0)), ?o) = [(3, ?e), (3, ?o)]"
    by code_simp
  note u = vacuum_on_arrival[OF m2, of 3 1 ?w "[]" "{}" 2 1 "[]", unfolded Let_def,
      THEN conjunct2, THEN conjunct2, THEN conjunct2, THEN conjunct2, THEN conjunct2,
      rule_format, OF wf ne]
  have "ucs_expand 3 1 ?w ?two [] {} 2 1 = Inr ([(3, ?e), (3, ?o)],
          {((0, 2), {|(0, 2)|}), ((0, 0), {|(0, 2)|})}, 2, 3) \<and>
        dfs_expand 3 1 ?w ?two [] {} 2 1 = Inr ([?e, ?o],
          {((0, 2), {|(0, 2)|}), ((0, 0), {|(0, 2)|})}, 2, 3)"
    using u unfolding s by (simp add: h insert_commute)
  then show ?thesis using goal_case wf by blast
qed

text \<open>
  Claim C5.  On a rectangular grid the \<open>for\<close> loop of either strategy pushes, in the order
  North, South, East, West, the successors whose target is in bounds and passable and whose
  key is not yet in \<open>explored\<close>; each successor has the target position, the dirty cells
  of the expanded node and its path extended by the label of the direction; every pushed
  key is added to \<open>explored\<close> and counted in \<open>gen\<close>.
\<close>

theorem successors_in_fixed_order:
  assumes "wf_world cols rows world" and "position cur = (r, c)"
  shows "(let new = filter (\<lambda>s. (position s, dirty_cells s) \<notin> explored)
                      (spec_successors cols rows world cur)
          in ucs_for cols rows world r c cur directions (pq, explored, gen) =
               Inr (foldl heappush pq (map (\<lambda>s. (length (path s), s)) new),
                    explored \<union> (\<lambda>s. (position s, dirty_cells s)) ` set new, gen + length new) \<and>
             dfs_for cols rows world r c cur directions (stack, explored, gen) =
               Inr (stack @ new,
                    explored \<union> (\<lambda>s. (position s, dirty_cells s)) ` set new, gen + length new))"
proof -
  have nr: "\<not> (\<exists>(a, d) \<in> set directions. raises cols rows world (target (position cur) d))"
    using wf_world_no_raise[OF assms(1)] by auto
  have k: "key_of = (\<lambda>s. (position s, dirty_cells s))" and e: "entry_of = (\<lambda>s. (length (path s), s))"
    by (auto simp: key_of_def entry_of_def)
  show ?thesis
    using ucs_for_succ_list[OF distinct_directions assms(2), of cols rows world pq explored gen]
      dfs_for_succ_list[OF distinct_directions assms(2), of cols rows world stack explored gen] nr
    unfolding succ_list_directions k e by (simp add: Let_def)
qed

theorem successors_in_fixed_order_witness:
  "wf_world 3 2 [''_#_'', ''___''] \<and>
   spec_successors 3 2 [''_#_'', ''___'']
       \<lparr>position = (1, 1), dirty_cells = {|(0, 0)|}, path = [''E'']\<rparr> =
     [\<lparr>position = (1, 2), dirty_cells = {|(0, 0)|}, path = [''E'', ''E'']\<rparr>,
      \<lparr>position = (1, 0), dirty_cells = {|(0, 0)|}, path = [''E'', ''W'']\<rparr>] \<and>
   dfs_for 3 2 [''_#_'', ''___''] 1 1
       \<lparr>position = (1, 1), dirty_cells = {|(0, 0)|}, path = [''E'']\<rparr> directions
       ([], {((1, 0), {|(0, 0)|})}, 1) =
     Inr ([\<lparr>position = (1, 2), dirty_cells = {|(0, 0)|}, path = [''E'', ''E'']\<rparr>],
          {((1, 0), {|(0, 0)|}), ((1, 2), {|(0, 0)|})}, 2)"
proof -
  let ?w = "[''_#_'', ''___'']"
  let ?cur = "\<lparr>position = (1, 1), dirty_cells = {|(0, 0)|}, path = [''E'']\<rparr>"
  have wf: "wf_world 3 2 ?w" by (simp add: wf_world_def)
  have p: "position ?cur = (1, 1)" by simp
  have s: "spec_successors 3 2 ?w ?cur =
     [\<lparr>position = (1, 2), dirty_cells = {|(0, 0)|}, path = [''E'', ''E'']\<rparr>,
      \<lparr>position = (1, 0), dirty_cells = {|(0, 0)|}, path = [''E'', ''W'']\<rparr>]"
    by (simp add: spec_successors_def in_bounds_def passable_def world_cell_def)
  show ?thesis
    using successors_in_fixed_order[OF wf p, of "{((1, 0), {|(0, 0)|})}" "[]" 1 "[]"] wf s
    by (simp add: Let_def insert_commute)
qed

text \<open>
  Claim C6.  A loop whose frontier is empty reports exhaustion with the two counters.  On a
  rectangular grid on which no action sequence cleans every dirty cell, in particular one
  with a dirty cell enclosed by walls, both searches end with this report, which goes with
  exit status 1, and so return no solution.
\<close>

theorem exhausted_when_unsolvable:
  assumes "wf_world cols rows world"
    and "enclosed cols rows world start \<or> (\<forall>acts. \<not> cleans cols rows world start acts)"
  shows "\<exists>gen exp gen' exp'.
           ucs cols rows world start = Some (Inr (Exhausted gen exp)) \<and>
           dfs cols rows world start = Some (Inr (Exhausted gen' exp')) \<and>
           exit_status (Exhausted gen exp) = 1 \<and> exit_status (Exhausted gen' exp') = 1 \<and>
           exp = gen + 1 \<and> exp' = gen' + 1 \<and>
           ucs_loop cols rows world [] explored exp0 gen0 = Some (Inr (Exhausted gen0 exp0)) \<and>
           dfs_loop cols rows world [] explored exp0 gen0 = Some (Inr (Exhausted gen0 exp0))"
proof -
  have un: "\<forall>acts. \<not> cleans cols rows world start acts"
    using assms(2) enclosed_unsolvable by blast
  obtain r where r: "ucs cols rows world start = Some r" "search_post cols rows world start r"
    using ucs_post[of cols rows world start] by blast
  obtain r' where r': "dfs cols rows world start = Some r'" "search_post cols rows world start r'"
    using dfs_post[of cols rows world start] by blast
  obtain gen exp where e: "r = Inr (Exhausted gen exp)" "exp = gen + 1"
    using unsolvable_exhausted[OF assms(1) un r(2)] by blast
  obtain gen' exp' where e': "r' = Inr (Exhausted gen' exp')" "exp' = gen' + 1"
    using unsolvable_exhausted[OF assms(1) un r'(2)] by blast
  have l: "ucs_loop cols rows world [] explored exp0 gen0 = Some (Inr (Exhausted gen0 exp0))"
    "dfs_loop cols rows world [] explored exp0 gen0 = Some (Inr (Exhausted gen0 exp0))"
    by (subst ucs_loop.simps, simp) (subst dfs_loop.simps, simp)
  show ?thesis using r(1) r'(1) e e' l by simp
qed

theorem exhausted_when_unsolvable_witness:
  "wf_world 3 3 [''_#*'', ''__#'', ''___''] \<and>
   enclosed 3 3 [''_#*'', ''__#'', ''___''] \<lparr>position = (0, 0), dirty_cells = {|(0, 2)|}, path = []\<rparr> \<and>
   (\<exists>gen exp gen' exp'.
      ucs 3 3 [''_#*'', ''__#'', ''___''] \<lparr>position = (0, 0), dirty_cells = {|(0, 2)|}, path = []\<rparr>
        = Some (Inr (Exhausted gen exp)) \<and>
      dfs 3 3 [''_#*'', ''__#'', ''___''] \<lparr>position = (0, 0), dirty_cells = {|(0, 2)|}, path = []\<rparr>
        = Some (Inr (Exhausted gen' exp')))"
proof -
  let ?w = "[''_#*'', ''__#'', ''___'']"
  let ?s = "\<lparr>position = (0, 0), dirty_cells = {|(0, 2)|}, path = []\<rparr>"
  have wf: "wf_world 3 3 ?w" by (simp add: wf_world_def)
  have en: "enclosed 3 3 ?w ?s" by code_simp
  show ?thesis
    using exhausted_when_unsolvable[OF wf disjI1[OF en], of "{}" 0 0] wf en by blast
qed

text \<open>
  Claim C7.  For every grid and every start state both searches return.  No more nodes are
  generated than there are keys, namely (number of rows) times (number of columns) times
  2 to the number of dirty cells of the start, and the number of expanded nodes exceeds the
  number of generated nodes by one at most.
\<close>

theorem searches_terminate:
  "\<exists>r r'. ucs cols rows world start = Some r \<and> dfs cols rows world start = Some r' \<and>
     counts_within (nat rows * nat cols * 2 ^ fcard (dirty_cells start)) r \<and>
     counts_within (nat rows * nat cols * 2 ^ fcard (dirty_cells start)) r'"
  using ucs_post[of cols rows world start] dfs_post[of cols rows world start] search_post_counts
  by blast

text \<open>
  Claim C8.  On a rectangular grid and from a start state with an empty path, whenever some
  action sequence cleans every dirty cell, \<open>dfs\<close> returns an action sequence that cleans
  every dirty cell.  It need not be a shortest one: on the open 3 by 3 grid with the dirty
  cell two cells south of the start it returns seven actions where three suffice.
\<close>

theorem dfs_finds_solution:
  assumes "wf_world cols rows world" and "path start = []"
    and "cleans cols rows world start acts0"
  shows "\<exists>sol gen exp. dfs cols rows world start = Some (Inr (Solved sol gen exp)) \<and>
           cleans cols rows world start sol"
proof -
  obtain res where res: "dfs cols rows world start = Some res"
    "search_post cols rows world start res"
    using dfs_post[of cols rows world start] by blast
  obtain sol gen exp where s: "res = Inr (Solved sol gen exp)"
    using solvable_solved[OF assms(1,3) res(2)] by blast
  have "cleans cols rows world start sol" using solved_cleans[OF res(2)[unfolded s] assms(2)] .
  then show ?thesis using res(1) s by blast
qed

theorem dfs_finds_solution_witness:
  "cleans 3 3 [''___'', ''___'', ''___''] \<lparr>position = (0, 0), dirty_cells = {|(2, 0)|}, path = []\<rparr>
     [''S'', ''S'', ''V''] \<and>
   (\<exists>sol gen exp.
      dfs 3 3 [''___'', ''___'', ''___''] \<lparr>position = (0, 0), dirty_cells = {|(2, 0)|}, path = []\<rparr>
        = Some (Inr (Solved sol gen exp)) \<and>
      cleans 3 3 [''___'', ''___'', ''___'']
        \<lparr>position = (0, 0), dirty_cells = {|(2, 0)|}, path = []\<rparr> sol \<and>
      length sol = 7)"
proof -
  let ?w = "[''___'', ''___'', ''___'']"
  let ?s = "\<lparr>position = (0, 0), dirty_cells = {|(2, 0)|}, path = []\<rparr>"
  have wf: "wf_world 3 3 ?w" by (simp add: wf_world_def)
  have p: "path ?s = []" by simp
  have c: "cleans 3 3 ?w ?s [''S'', ''S'', ''V'']" by code_simp
  have d: "dfs 3 3 ?w ?s = Some (Inr (Solved [''E'', ''E'', ''S'', ''S'', ''W'', ''W'', ''V''] 9 8))"
    by code_simp
  obtain sol gen exp where s: "dfs 3 3 ?w ?s = Some (Inr (Solved sol gen exp))"
    "cleans 3 3 ?w ?s sol"
    using dfs_finds_solution[OF wf p c] by blast
  have "sol = [''E'', ''E'', ''S'', ''S'', ''W'', ''W'', ''V'']" using s(1) unfolding d by simp
  then have "length sol = 7" by simp
  then show ?thesis using c s by blast
qed

text \<open>
  Claim C9.  The world file with the single row \<open>_*@\<close> is read as the grid \<open>_*_\<close> with
  the robot at \<open>(0,2)\<close> and the dirty cell \<open>(0,1)\<close>; on it \<open>ucs\<close> prints exactly the
  actions \<open>W\<close>, \<open>V\<close>, with 1 node generated and 2 nodes expanded.
\<close>

theorem ucs_row_example:
  "read_input 3 1 [''_*@''] = Inr (3, 1, [''_*_''], Some (0, 2), {|(0, 1)|}) \<and>
   ucs 3 1 [''_*_''] \<lparr>position = (0, 2), dirty_cells = {|(0, 1)|}, path = []\<rparr>
     = Some (Inr (Solved [''W'', ''V''] 1 2))"
  by (intro conjI; code_simp)

text \<open>
  Claim C10.  \<open>RobotState.__lt__\<close> compares the numbers of dirty cells and nothing else:
  positions and paths do not matter.  In a heap that the planner can build, whenever two
  entries have the same priority and the first has strictly fewer dirty cells, the next
  \<open>heappop\<close> does not return the second.
\<close>

theorem lt_counts_dirty_cells_only:
  "lt s t = (fcard (dirty_cells s) < fcard (dirty_cells t)) \<and>
   lt (s\<lparr>position := p, path := a\<rparr>) (t\<lparr>position := q, path := b\<rparr>) = lt s t \<and>
   (frontier pq \<longrightarrow> x \<in> set pq \<longrightarrow> y \<in> set pq \<longrightarrow> fst x = fst y \<longrightarrow>
      fcard (dirty_cells (snd x)) < fcard (dirty_cells (snd y)) \<longrightarrow> fst (heappop pq) \<noteq> y)"
proof (intro conjI impI)
  show "lt s t = (fcard (dirty_cells s) < fcard (dirty_cells t))" by (simp add: lt_def)
  show "lt (s\<lparr>position := p, path := a\<rparr>) (t\<lparr>position := q, path := b\<rparr>) = lt s t"
    by (simp add: lt_def)
next
  assume f: "frontier pq" and e: "x \<in> set pq" "y \<in> set pq" "fst x = fst y"
    "fcard (dirty_cells (snd x)) < fcard (dirty_cells (snd y))"
  have ne: "pq \<noteq> []" using e(1) by auto
  have "entry_le (fst (heappop pq)) x"
    using heappop_props(3)[OF frontier_heap_ok[OF f] ne, of "fst (heappop pq)" "snd (heappop pq)"] e(1)
    by simp
  moreover have "entry_lt x y" using e(3,4) by (simp add: entry_lt_def lt_def)
  ultimately show "fst (heappop pq) \<noteq> y" by (auto simp: entry_le_def)
qed

theorem lt_counts_dirty_cells_only_witness:
  "fst (heappop (heappush (heappush []
       (2, \<lparr>position = (5, 5), dirty_cells = {|(0, 1), (3, 3)|}, path = [''E'', ''E'']\<rparr>))
       (2, \<lparr>position = (0, 0), dirty_cells = {|(0, 1)|}, path = [''N'', ''S'']\<rparr>)))
   \<noteq> (2, \<lparr>position = (5, 5), dirty_cells = {|(0, 1), (3, 3)|}, path = [''E'', ''E'']\<rparr>)"
proof -
  let ?one = "\<lparr>position = (0, 0), dirty_cells = {|(0, 1)|}, path = [''N'', ''S'']\<rparr>"
  let ?two = "\<lparr>position = (5, 5), dirty_cells = {|(0, 1), (3, 3)|}, path = [''E'', ''E'']\<rparr>"
  let ?pq = "heappush (heappush [] (2, ?two)) (2, ?one)"
  have pq: "?pq = [(2, ?one), (2, ?two)]"
    by code_simp
  have f: "frontier ?pq" by (intro frontier.intros)
  have c: "fcard (dirty_cells (snd (2::nat, ?one))) < fcard (dirty_cells (snd (2::nat, ?two)))"
    by code_simp
  show ?thesis
    using lt_counts_dirty_cells_only[where pq="?pq" and x="(2, ?one)" and y="(2, ?two)"]
      f c pq by simp
qed

end
